theory Spec2Isabelle
  imports
    Complex_Main
    "HOL-Library.Char_ord"
    "HOL-Library.List_Lexorder"
    "HOL-Library.Product_Lexorder"
    "HOL-Library.Multiset"
    "HOL-Library.Sublist"
    "HOL-Library.AList"
    "HOL-Library.Log_Nat"
begin

section \<open>Python values and errors\<close>

text \<open>
  A Python \<open>str\<close> is modelled as a \<open>string\<close>, a list of 8-bit characters read as
  the code points 0 to 255; \<open>len\<close> is \<open>length\<close>. Python's unbounded \<open>int\<close> is
  \<open>int\<close>. Every exception the modelled code can raise is a constructor of \<open>error\<close>,
  and a function that can raise returns \<open>error + 'a\<close> with \<open>Inl\<close> for the exception.
\<close>

datatype error =
    KeyError string
  | JSONDecodeError
  | ZeroDivisionError
  | OverflowError
  | ValueError

text \<open>\<open>sep.join(xs)\<close>\<close>

fun join :: "string \<Rightarrow> string list \<Rightarrow> string" where
  "join sep [] = []"
| "join sep [x] = x"
| "join sep (x # y # ys) = x @ sep @ join sep (y # ys)"

section \<open>The content store (Database.py)\<close>

subsection \<open>Data\<close>

text \<open>
  The argument of \<open>add_post\<close> is a dictionary. Each key the code reads is a field that may
  be absent: \<open>post_data['caption']\<close> raises \<open>KeyError\<close> on an absent key, while
  \<open>post_data.get('hashtags', [])\<close> falls back to the empty list.
\<close>

record post_data =
  pd_caption :: "string option"
  pd_type :: "string option"
  pd_engagement :: "int option"
  pd_hashtags :: "string list option"
  pd_date_posted :: "string option"

text \<open>The metadata dictionary written next to each document; the hashtags are stored as
  one string, the output of \<open>json.dumps\<close>.\<close>

record metadata =
  md_type :: string
  md_engagement :: int
  md_hashtags :: string
  md_date_posted :: string

record 'e row =
  row_id :: string
  row_embedding :: "'e"
  row_document :: string
  row_metadata :: metadata

text \<open>The dictionary that \<open>get_all_posts\<close> builds for each stored row.\<close>

record post =
  post_id :: string
  caption :: string
  post_type :: string
  engagement :: int
  hashtags :: "string list"
  date_posted :: string

subsection \<open>The external vector index\<close>

text \<open>
  Modelled from the spec: the vector index (the ChromaDB collection) is an external
  collaborator whose code is not part of the repository. The spec gives it the primitives
  \<open>add(id, vector, payload)\<close>, \<open>get() -> list of (id, payload)\<close> and
  \<open>count() -> integer\<close> over an append-only record set. Here it is the list of its rows
  in insertion order: \<open>add\<close> appends a row whose id is new and ignores a row whose id is
  already present, \<open>get\<close> returns the rows in insertion order, \<open>count\<close> is their number.
\<close>

type_synonym 'e collection = "'e row list"

definition collection_add :: "'e collection \<Rightarrow> 'e row \<Rightarrow> 'e collection" where
  "collection_add coll r =
     (if row_id r \<in> set (map row_id coll) then coll else coll @ [r])"

definition collection_get :: "'e collection \<Rightarrow> 'e row list" where
  "collection_get coll = coll"

definition collection_count :: "'e collection \<Rightarrow> int" where
  "collection_count coll = int (length coll)"

subsection \<open>add_post\<close>

text \<open>
  The sentence transformer (\<open>self.model.encode\<close>), \<open>json.dumps\<close> and the identifier
  drawn by \<open>uuid.uuid4()\<close> are external; they are the parameters \<open>encode\<close>, \<open>dumps\<close>
  and \<open>uuid4\<close>. The function returns the identifier and the updated collection. The keys
  are read in the order of the source: \<open>caption\<close> for the embedding text, then, building the
  arguments of \<open>collection.add\<close>, \<open>type\<close>, \<open>engagement\<close> and \<open>date_posted\<close>.
\<close>

definition add_post ::
  "(string \<Rightarrow> 'e) \<Rightarrow> (string list \<Rightarrow> string) \<Rightarrow> string \<Rightarrow> 'e collection \<Rightarrow> post_data
     \<Rightarrow> error + (string \<times> 'e collection)" where
  "add_post encode dumps uuid4 coll post_data =
     (case pd_caption post_data of
        None \<Rightarrow> Inl (KeyError ''caption'')
      | Some cap \<Rightarrow>
          let tags = (case pd_hashtags post_data of None \<Rightarrow> [] | Some hs \<Rightarrow> hs);
              text_for_embedding = cap @ '' '' @ join '' '' tags;
              embedding = encode text_for_embedding
          in (case pd_type post_data of
                None \<Rightarrow> Inl (KeyError ''type'')
              | Some ty \<Rightarrow>
                 (case pd_engagement post_data of
                    None \<Rightarrow> Inl (KeyError ''engagement'')
                  | Some eng \<Rightarrow>
                     (case pd_date_posted post_data of
                        None \<Rightarrow> Inl (KeyError ''date_posted'')
                      | Some dat \<Rightarrow>
                          Inr (uuid4,
                               collection_add coll
                                 \<lparr>row_id = uuid4,
                                  row_embedding = embedding,
                                  row_document = cap,
                                  row_metadata =
                                    \<lparr>md_type = ty,
                                     md_engagement = eng,
                                     md_hashtags = dumps tags,
                                     md_date_posted = dat\<rparr>\<rparr>)))))"

subsection \<open>get_all_posts, get_post_count\<close>

text \<open>
  \<open>json.loads\<close> is the parameter \<open>loads\<close>; it yields \<open>None\<close> on a text that is not the
  JSON of a list of strings, and reading such a row fails. The loop builds the posts in
  the order of the rows and stops at the first row that fails.
\<close>

fun rows_to_posts :: "(string \<Rightarrow> string list option) \<Rightarrow> 'e row list \<Rightarrow> error + post list" where
  "rows_to_posts loads [] = Inr []"
| "rows_to_posts loads (r # rs) =
     (case loads (md_hashtags (row_metadata r)) of
        None \<Rightarrow> Inl JSONDecodeError
      | Some tags \<Rightarrow>
         (case rows_to_posts loads rs of
            Inl e \<Rightarrow> Inl e
          | Inr posts \<Rightarrow>
              Inr (\<lparr>post_id = row_id r,
                    caption = row_document r,
                    post_type = md_type (row_metadata r),
                    engagement = md_engagement (row_metadata r),
                    hashtags = tags,
                    date_posted = md_date_posted (row_metadata r)\<rparr> # posts)))"

definition get_all_posts :: "(string \<Rightarrow> string list option) \<Rightarrow> 'e collection \<Rightarrow> error + post list" where
  "get_all_posts loads coll = rows_to_posts loads (collection_get coll)"

definition get_post_count :: "'e collection \<Rightarrow> int" where
  "get_post_count coll = collection_count coll"

subsection \<open>Sorting\<close>

text \<open>
  \<open>list.sort(key=f, reverse=True)\<close> and \<open>sorted(xs, key=f, reverse=True)\<close>: Python's
  sort is stable, and with \<open>reverse=True\<close> elements with equal keys keep their original
  relative order. \<open>insort_reverse\<close> puts an element in front of the first element whose
  key is not greater, so that an element inserted later (one that stood earlier in the
  input) goes in front of its equals.
\<close>

fun insort_reverse :: "('a \<Rightarrow> 'k::linorder) \<Rightarrow> 'a \<Rightarrow> 'a list \<Rightarrow> 'a list" where
  "insort_reverse f x [] = [x]"
| "insort_reverse f x (y # ys) =
     (if f y \<le> f x then x # y # ys else y # insort_reverse f x ys)"

definition sort_reverse :: "('a \<Rightarrow> 'k::linorder) \<Rightarrow> 'a list \<Rightarrow> 'a list" where
  "sort_reverse f xs = foldr (insort_reverse f) xs []"

text \<open>The slice \<open>xs[:n]\<close>: a negative \<open>n\<close> counts from the end.\<close>

definition slice_to :: "'a list \<Rightarrow> int \<Rightarrow> 'a list" where
  "slice_to xs n = (if 0 \<le> n then take (nat n) xs else take (nat (int (length xs) + n)) xs)"

subsection \<open>get_recent_posts\<close>

text \<open>The key is the stored date string; strings compare lexicographically by code
  point, as Python's \<open>str\<close> does.\<close>

definition get_recent_posts ::
  "(string \<Rightarrow> string list option) \<Rightarrow> 'e collection \<Rightarrow> int \<Rightarrow> error + post list" where
  "get_recent_posts loads coll limit =
     (case get_all_posts loads coll of
        Inl e \<Rightarrow> Inl e
      | Inr posts \<Rightarrow> Inr (slice_to (sort_reverse date_posted posts) limit))"

subsection \<open>Floating point\<close>

text \<open>
  A Python \<open>float\<close> is an IEEE 754 binary64 number. A finite one is modelled as the
  rational it denotes. \<open>binary64 q\<close> rounds a rational to the nearest number with a
  53-bit significand, ties to the even significand, with the exponent bounded below as
  for subnormal numbers; overflow is checked where the operation is modelled.
  \<open>ilog2 q\<close> is \<open>\<lfloor>log\<^sub>2 q\<rfloor>\<close> for a positive \<open>q\<close>.
\<close>

definition round_half_even :: "rat \<Rightarrow> int" where
  "round_half_even q =
     (let f = \<lfloor>q\<rfloor>; r = q - of_int f
      in if r < 1 / 2 then f
         else if 1 / 2 < r then f + 1
         else if even f then f else f + 1)"

definition ilog2 :: "rat \<Rightarrow> int" where
  "ilog2 q =
     (let e = bitlen (fst (quotient_of q)) - bitlen (snd (quotient_of q))
      in if 2 powi e \<le> q then e else e - 1)"

definition binary64 :: "rat \<Rightarrow> rat" where
  "binary64 q =
     (if q = 0 then 0
      else let e = max (ilog2 \<bar>q\<bar>) (- 1022) - 52
           in of_int (round_half_even (q / 2 powi e)) * 2 powi e)"

text \<open>
  \<open>a / b\<close> on two \<open>int\<close>s: the correctly rounded quotient, \<open>ZeroDivisionError\<close> on a
  zero divisor, \<open>OverflowError\<close> when the rounded quotient is beyond the largest float.
\<close>

definition true_div :: "int \<Rightarrow> int \<Rightarrow> error + rat" where
  "true_div a b =
     (if b = 0 then Inl ZeroDivisionError
      else let r = binary64 (of_int a / of_int b)
           in if 2 ^ 1024 \<le> \<bar>r\<bar> then Inl OverflowError else Inr r)"

text \<open>\<open>x * y\<close> on two floats whose rounded product is finite.\<close>

definition float_mul :: "rat \<Rightarrow> rat \<Rightarrow> rat" where
  "float_mul x y = binary64 (x * y)"

subsection \<open>Dictionaries\<close>

text \<open>
  A Python \<open>dict\<close> keeps its keys in insertion order, and the analysis sorts the items of
  dictionaries with a stable sort, so a dictionary is an association list with distinct
  keys in insertion order. \<open>d[k] = v\<close> is \<open>AList.update k v d\<close>: it replaces the value
  of a present key in place and appends an absent key. \<open>k in d\<close> is
  \<open>map_of d k \<noteq> None\<close>.
\<close>

definition dict_get :: "('k \<times> 'v) list \<Rightarrow> 'k \<Rightarrow> 'v \<Rightarrow> 'v" where
  "dict_get d k dflt = (case map_of d k of None \<Rightarrow> dflt | Some v \<Rightarrow> v)"

text \<open>\<open>dict(pairs)\<close>\<close>

definition dict_of :: "('k \<times> 'v) list \<Rightarrow> ('k \<times> 'v) list" where
  "dict_of pairs = foldl (\<lambda>d kv. AList.update (fst kv) (snd kv) d) [] pairs"

subsection \<open>get_content_analysis\<close>

text \<open>The five accumulators of the loop over the posts.\<close>

record counters =
  type_counts :: "(string \<times> int) list"
  type_engagement :: "(string \<times> int list) list"
  hashtag_counts :: "(string \<times> int) list"
  hashtag_engagement :: "(string \<times> int list) list"
  total_engagement :: int

definition init_counters :: counters where
  "init_counters =
     \<lparr>type_counts = [], type_engagement = [], hashtag_counts = [],
      hashtag_engagement = [], total_engagement = 0\<rparr>"

text \<open>\<open>if k not in d: d[k] = []\<close> followed by \<open>d[k].append(v)\<close>\<close>

definition append_to :: "(string \<times> int list) list \<Rightarrow> string \<Rightarrow> int \<Rightarrow> (string \<times> int list) list" where
  "append_to d k v =
     (let d1 = (if map_of d k = None then AList.update k [] d else d)
      in AList.update k (dict_get d1 k [] @ [v]) d1)"

text \<open>The body of the inner loop over the hashtags of one post.\<close>

definition count_hashtag :: "int \<Rightarrow> counters \<Rightarrow> string \<Rightarrow> counters" where
  "count_hashtag eng c hashtag =
     c\<lparr>hashtag_counts :=
         AList.update hashtag (dict_get (hashtag_counts c) hashtag 0 + 1) (hashtag_counts c),
       hashtag_engagement := append_to (hashtag_engagement c) hashtag eng\<rparr>"

text \<open>The body of the loop over the posts.\<close>

definition count_post :: "counters \<Rightarrow> post \<Rightarrow> counters" where
  "count_post c p =
     (let c1 = c\<lparr>type_counts :=
                   AList.update (post_type p) (dict_get (type_counts c) (post_type p) 0 + 1)
                     (type_counts c),
                 type_engagement := append_to (type_engagement c) (post_type p) (engagement p)\<rparr>;
          c2 = foldl (count_hashtag (engagement p)) c1 (hashtags p)
      in c2\<lparr>total_engagement := total_engagement c2 + engagement p\<rparr>)"

text \<open>The loop that fills \<open>avg_engagement_by_type\<close>.\<close>

fun avg_by_type :: "(string \<times> rat) list \<Rightarrow> (string \<times> int list) list \<Rightarrow> error + (string \<times> rat) list" where
  "avg_by_type acc [] = Inr acc"
| "avg_by_type acc ((k, engagements) # rest) =
     (case true_div (sum_list engagements) (int (length engagements)) of
        Inl e \<Rightarrow> Inl e
      | Inr avg \<Rightarrow> avg_by_type (AList.update k avg acc) rest)"

text \<open>The loop that fills \<open>avg_engagement_by_hashtag\<close>, with its guard
  \<open>len(engagements) >= 2\<close>.\<close>

fun avg_by_hashtag :: "(string \<times> rat) list \<Rightarrow> (string \<times> int list) list \<Rightarrow> error + (string \<times> rat) list" where
  "avg_by_hashtag acc [] = Inr acc"
| "avg_by_hashtag acc ((k, engagements) # rest) =
     (if 2 \<le> length engagements
      then (case true_div (sum_list engagements) (int (length engagements)) of
              Inl e \<Rightarrow> Inl e
            | Inr avg \<Rightarrow> avg_by_hashtag (AList.update k avg acc) rest)
      else avg_by_hashtag acc rest)"

record analysis =
  total_posts :: int
  avg_engagement :: rat
  type_distribution :: "(string \<times> int) list"
  avg_engagement_by_type :: "(string \<times> rat) list"
  top_hashtags :: "(string \<times> int) list"
  best_performing_hashtags :: "(string \<times> rat) list"

text \<open>The function returns the empty dictionary \<open>{}\<close> or a dictionary with the six keys
  of \<open>analysis\<close>.\<close>

datatype analysis_result = Empty_Dict | Analysis analysis

definition get_content_analysis ::
  "(string \<Rightarrow> string list option) \<Rightarrow> 'e collection \<Rightarrow> error + analysis_result" where
  "get_content_analysis loads coll =
     (case get_all_posts loads coll of
        Inl e \<Rightarrow> Inl e
      | Inr posts \<Rightarrow>
          if posts = [] then Inr Empty_Dict
          else
            let c = foldl count_post init_counters posts
            in (case avg_by_type [] (type_engagement c) of
                  Inl e \<Rightarrow> Inl e
                | Inr by_type \<Rightarrow>
                   (case avg_by_hashtag [] (hashtag_engagement c) of
                      Inl e \<Rightarrow> Inl e
                    | Inr by_hashtag \<Rightarrow>
                       (case (if posts \<noteq> [] then true_div (total_engagement c) (int (length posts))
                              else Inr 0) of
                          Inl e \<Rightarrow> Inl e
                        | Inr avg \<Rightarrow>
                            Inr (Analysis
                              \<lparr>total_posts = int (length posts),
                               avg_engagement = avg,
                               type_distribution = type_counts c,
                               avg_engagement_by_type = by_type,
                               top_hashtags =
                                 dict_of (slice_to (sort_reverse snd (hashtag_counts c)) 10),
                               best_performing_hashtags =
                                 dict_of (slice_to (sort_reverse snd by_hashtag) 10)\<rparr>)))))"

section \<open>The trend analyzer (app.py)\<close>

subsection \<open>Dates\<close>

text \<open>
  A \<open>datetime\<close> of the standard library, with its proleptic Gregorian ordinal
  (\<open>toordinal\<close>: day 1 is 0001-01-01) computed as the library does. Datetimes compare
  as the tuples of their fields.
\<close>

record datetime =
  year :: int
  month :: int
  day :: int
  hour :: int
  minute :: int
  second :: int
  microsecond :: int

definition is_leap :: "int \<Rightarrow> bool" where
  "is_leap y = (y mod 4 = 0 \<and> (y mod 100 \<noteq> 0 \<or> y mod 400 = 0))"

definition days_before_year :: "int \<Rightarrow> int" where
  "days_before_year y = (y - 1) * 365 + (y - 1) div 4 - (y - 1) div 100 + (y - 1) div 400"

definition days_in_month :: "int \<Rightarrow> int \<Rightarrow> int" where
  "days_in_month y m =
     (if m = 2 \<and> is_leap y then 29
      else [31, 28, 31, 30, 31, 30, 31, 31, 30, 31, 30, 31] ! nat (m - 1))"

definition days_before_month :: "int \<Rightarrow> int \<Rightarrow> int" where
  "days_before_month y m =
     [0, 31, 59, 90, 120, 151, 181, 212, 243, 273, 304, 334] ! nat (m - 1)
       + (if 2 < m \<and> is_leap y then 1 else 0)"

definition toordinal :: "datetime \<Rightarrow> int" where
  "toordinal d = days_before_year (year d) + days_before_month (year d) (month d) + day d"

definition datetime_key :: "datetime \<Rightarrow> int \<times> int \<times> int \<times> int \<times> int \<times> int \<times> int" where
  "datetime_key d = (year d, month d, day d, hour d, minute d, second d, microsecond d)"

text \<open>
  \<open>(a - b).days\<close>: the difference is a \<open>timedelta\<close>, normalised so that its seconds
  and microseconds are not negative; \<open>days\<close> is therefore rounded down.
\<close>

definition timedelta_days :: "datetime \<Rightarrow> datetime \<Rightarrow> int" where
  "timedelta_days a b =
     (let days = toordinal a - toordinal b;
          seconds = (hour a * 3600 + minute a * 60 + second a)
                      - (hour b * 3600 + minute b * 60 + second b);
          microseconds = microsecond a - microsecond b
      in days + (seconds + microseconds div 1000000) div 86400)"

text \<open>
  \<open>datetime.strptime(s, '%Y-%m-%d')\<close>. The library matches the string against
  \<open>(\d\d\d\d)-(1[0-2]|0[1-9]|[1-9])-(3[0-1]|[1-2]\d|0[1-9]|[1-9]| [1-9])\<close>, requires
  that nothing remains after the match, and builds the date, which checks the year and
  the day of the month. Every failure is a \<open>ValueError\<close>.
\<close>

definition is_digit :: "char \<Rightarrow> bool" where
  "is_digit c = (CHR ''0'' \<le> c \<and> c \<le> CHR ''9'')"

definition is_digit19 :: "char \<Rightarrow> bool" where
  "is_digit19 c = (CHR ''1'' \<le> c \<and> c \<le> CHR ''9'')"

definition digit_value :: "char \<Rightarrow> int" where
  "digit_value c = int (of_char c) - 48"

text \<open>The month group, which must be followed by \<open>-\<close>; returns the month and the rest
  of the string after the \<open>-\<close>.\<close>

fun match_month :: "string \<Rightarrow> (int \<times> string) option" where
  "match_month (a # b # rest) =
     (if ((a = CHR ''1'' \<and> CHR ''0'' \<le> b \<and> b \<le> CHR ''2'') \<or> (a = CHR ''0'' \<and> is_digit19 b))
         \<and> take 1 rest = ''-''
      then Some (10 * digit_value a + digit_value b, drop 1 rest)
      else if is_digit19 a \<and> b = CHR ''-'' then Some (digit_value a, rest)
      else None)"
| "match_month _ = None"

text \<open>The day group: the first alternative that matches; returns the day and what
  remains of the string.\<close>

fun match_day :: "string \<Rightarrow> (int \<times> string) option" where
  "match_day (a # b # rest) =
     (if (a = CHR ''3'' \<and> CHR ''0'' \<le> b \<and> b \<le> CHR ''1'')
         \<or> (CHR ''1'' \<le> a \<and> a \<le> CHR ''2'' \<and> is_digit b)
         \<or> (a = CHR ''0'' \<and> is_digit19 b)
      then Some (10 * digit_value a + digit_value b, rest)
      else if is_digit19 a then Some (digit_value a, b # rest)
      else if a = CHR '' '' \<and> is_digit19 b then Some (digit_value b, rest)
      else None)"
| "match_day [a] = (if is_digit19 a then Some (digit_value a, []) else None)"
| "match_day [] = None"

definition strptime :: "string \<Rightarrow> error + datetime" where
  "strptime s =
     (case s of
        y1 # y2 # y3 # y4 # dash # rest \<Rightarrow>
          if is_digit y1 \<and> is_digit y2 \<and> is_digit y3 \<and> is_digit y4 \<and> dash = CHR ''-''
          then (case match_month rest of
                  None \<Rightarrow> Inl ValueError
                | Some (m, rest1) \<Rightarrow>
                   (case match_day rest1 of
                      None \<Rightarrow> Inl ValueError
                    | Some (d, rest2) \<Rightarrow>
                        let y = 1000 * digit_value y1 + 100 * digit_value y2
                                  + 10 * digit_value y3 + digit_value y4
                        in if rest2 \<noteq> [] then Inl ValueError
                           else if y < 1 then Inl ValueError
                           else if days_in_month y m < d then Inl ValueError
                           else Inr \<lparr>year = y, month = m, day = d, hour = 0, minute = 0,
                                     second = 0, microsecond = 0\<rparr>))
          else Inl ValueError
      | _ \<Rightarrow> Inl ValueError)"

text \<open>The list comprehension that parses the date of every post, in order.\<close>

fun parse_dates :: "post list \<Rightarrow> error + datetime list" where
  "parse_dates [] = Inr []"
| "parse_dates (p # ps) =
     (case strptime (date_posted p) of
        Inl e \<Rightarrow> Inl e
      | Inr d \<Rightarrow> (case parse_dates ps of Inl e \<Rightarrow> Inl e | Inr ds \<Rightarrow> Inr (d # ds)))"

subsection \<open>Formatting\<close>

text \<open>
  \<open>f"{x:.1f}"\<close>: the decimal expansion of the float with one digit after the point,
  correctly rounded from its exact value, ties to even.
\<close>

definition digit_char :: "nat \<Rightarrow> char" where
  "digit_char n = char_of (48 + n)"

fun str_nat :: "nat \<Rightarrow> string" where
  "str_nat n = (if n < 10 then [digit_char n] else str_nat (n div 10) @ [digit_char (n mod 10)])"

definition format_1f :: "rat \<Rightarrow> string" where
  "format_1f x =
     (let t = nat (round_half_even (\<bar>x\<bar> * 10))
      in (if x < 0 then ''-'' else []) @ str_nat (t div 10) @ ''.'' @ str_nat (t mod 10))"

subsection \<open>analyze_content_gaps\<close>

record content_gaps =
  recent_content_mix :: "(string \<times> int) list"
  missing_content_types :: "string list"
  overused_types :: "string list"

text \<open>The function returns the one-key dictionary \<open>{"gap_analysis": ...}\<close> or the
  three-key report.\<close>

datatype gaps_result = Gap_Analysis string | Content_Gaps content_gaps

definition all_types :: "string list" where
  "all_types = [''satisfying_video'', ''promotion'', ''educational'', ''behind_scenes'']"

text \<open>
  Python does not fix the order in which \<open>set(recent_types)\<close> is iterated; the model
  takes the distinct types in the order of \<open>remdups\<close>, so only the keys and values of
  \<open>recent_content_mix\<close> and the elements of \<open>overused_types\<close> are meaningful, not
  their order.
\<close>

definition analyze_content_gaps :: "post list \<Rightarrow> gaps_result" where
  "analyze_content_gaps recent_posts =
     (if recent_posts = [] then Gap_Analysis ''No recent posts to analyze''
      else
        let recent_types = map post_type (slice_to recent_posts 7);
            type_counts = map (\<lambda>t. (t, int (count_list recent_types t))) (remdups recent_types);
            missing_types = filter (\<lambda>t. t \<notin> set recent_types) all_types
        in Content_Gaps
             \<lparr>recent_content_mix = type_counts,
              missing_content_types = missing_types,
              overused_types = map fst (filter (\<lambda>tc. 3 \<le> snd tc) type_counts)\<rparr>)"

subsection \<open>analyze_posting_rhythm\<close>

record rhythm =
  days_since_last_post :: int
  average_posting_frequency :: string
  posting_status :: string

datatype rhythm_result = Rhythm_Marker string | Rhythm rhythm

text \<open>The mean of the gaps, \<open>sum(gaps) / len(gaps) if gaps else 0\<close>.\<close>

definition average_gap :: "int list \<Rightarrow> error + rat" where
  "average_gap gaps =
     (if gaps \<noteq> [] then true_div (sum_list gaps) (int (length gaps)) else Inr 0)"

text \<open>\<open>[(dates[i] - dates[i+1]).days for i in range(len(dates)-1)]\<close>\<close>

definition date_gaps :: "datetime list \<Rightarrow> int list" where
  "date_gaps dates =
     map (\<lambda>i. timedelta_days (dates ! i) (dates ! (i + 1))) [0 ..< length dates - 1]"

text \<open>
  \<open>datetime.now()\<close> is the parameter \<open>now\<close>. \<open>dates[0]\<close> is read only when there are
  at least two dates, so the index is in range.
\<close>

definition analyze_posting_rhythm :: "datetime \<Rightarrow> post list \<Rightarrow> error + rhythm_result" where
  "analyze_posting_rhythm now recent_posts =
     (if length recent_posts < 2 then Inr (Rhythm_Marker ''Not enough posts to analyze rhythm'')
      else
        (case parse_dates recent_posts of
           Inl e \<Rightarrow> Inl e
         | Inr parsed \<Rightarrow>
            let dates = sort_reverse datetime_key parsed;
                days_since_last = timedelta_days now (dates ! 0);
                gaps = date_gaps dates
            in (case average_gap gaps of
                  Inl e \<Rightarrow> Inl e
                | Inr avg_gap \<Rightarrow>
                    Inr (Rhythm
                      \<lparr>days_since_last_post = days_since_last,
                       average_posting_frequency = ''Every '' @ format_1f avg_gap @ '' days'',
                       posting_status =
                         (if float_mul avg_gap (3 / 2) < of_int days_since_last
                          then ''overdue'' else ''on_schedule'')\<rparr>))))"

section \<open>The recommendation extractor (app.py)\<close>

subsection \<open>Strings\<close>

text \<open>
  \<open>s.upper()\<close> on the ASCII letters. Outside ASCII a character is left as it is;
  Python maps some of these to other characters, none of which is an ASCII letter of the
  marker, a space or a colon, so the test \<open>'FINAL RECOMMENDATION:' in content.upper()\<close>,
  the only use of \<open>upper\<close>, has the same outcome.
\<close>

definition upper_char :: "char \<Rightarrow> char" where
  "upper_char c =
     (if CHR ''a'' \<le> c \<and> c \<le> CHR ''z'' then char_of (of_char c - (32::nat)) else c)"

definition upper :: "string \<Rightarrow> string" where
  "upper s = map upper_char s"

text \<open>\<open>sub in s\<close>\<close>

fun contains :: "string \<Rightarrow> string \<Rightarrow> bool" where
  "contains sub [] = (sub = [])"
| "contains sub (c # cs) = (prefix sub (c # cs) \<or> contains sub cs)"

text \<open>
  \<open>s.replace(old, new)\<close>: every occurrence of \<open>old\<close>, found from left to right
  without overlap, is replaced; an empty \<open>old\<close> matches before every character and at
  the end.
\<close>

function replace :: "string \<Rightarrow> string \<Rightarrow> string \<Rightarrow> string" where
  "replace old new s =
     (if old = [] then new @ concat (map (\<lambda>c. c # new) s)
      else if s = [] then []
      else if prefix old s then new @ replace old new (drop (length old) s)
      else hd s # replace old new (tl s))"
  by pat_completeness auto
termination
  by (relation "measure (\<lambda>(old, new, s). length s)") auto

text \<open>\<open>s.strip()\<close> removes the leading and trailing characters that \<open>str.isspace\<close>
  accepts.\<close>

definition is_space :: "char \<Rightarrow> bool" where
  "is_space c =
     ((of_char c :: nat) \<in> {0x09, 0x0A, 0x0B, 0x0C, 0x0D, 0x1C, 0x1D, 0x1E, 0x1F, 0x20, 0x85, 0xA0})"

definition strip :: "string \<Rightarrow> string" where
  "strip s = rev (dropWhile is_space (rev (dropWhile is_space s)))"

subsection \<open>extract_recommendations\<close>

text \<open>
  A message of the chat history is a dictionary read with \<open>msg.get('content', '')\<close>
  and \<open>msg.get('name', '')\<close>: an absent key reads as the empty string. The chat result
  may lack the attribute \<open>chat_history\<close>; then there are no messages.
\<close>

record msg =
  msg_content :: "string option"
  msg_name :: "string option"

record chat_result =
  chat_history :: "msg list option"

definition get_content :: "msg \<Rightarrow> string" where
  "get_content m = (case msg_content m of None \<Rightarrow> [] | Some c \<Rightarrow> c)"

definition get_name :: "msg \<Rightarrow> string" where
  "get_name m = (case msg_name m of None \<Rightarrow> [] | Some n \<Rightarrow> n)"

definition marker :: string where
  "marker = ''FINAL RECOMMENDATION:''"

text \<open>The first loop, over \<open>reversed(all_messages)\<close>, with its \<open>break\<close>; the argument is
  the reversed list and the result the final value of \<open>final_recommendation\<close>.\<close>

fun find_final :: "msg list \<Rightarrow> string" where
  "find_final [] = []"
| "find_final (m # ms) =
     (if get_name m = ''content_coordinator'' \<and> contains marker (upper (get_content m))
      then get_content m
      else find_final ms)"

text \<open>The body of the second loop, on the pair \<open>(story_rec, feed_rec)\<close>.\<close>

definition truncate_rec :: "string \<Rightarrow> string" where
  "truncate_rec content = (if 500 < length content then take 500 content @ ''...'' else content)"

definition specialist_step :: "string \<times> string \<Rightarrow> msg \<Rightarrow> string \<times> string" where
  "specialist_step recs m =
     (if get_name m = ''story_specialist'' \<and> 100 < length (get_content m)
      then (truncate_rec (get_content m), snd recs)
      else if get_name m = ''feed_specialist'' \<and> 100 < length (get_content m)
      then (fst recs, truncate_rec (get_content m))
      else recs)"

text \<open>The three local variables after the two loops.\<close>

record recommendations =
  final_recommendation :: string
  story_rec :: string
  feed_rec :: string

text \<open>\<open>all_messages\<close>: the chat history when the result has one, else the empty list.\<close>

definition all_messages :: "chat_result \<Rightarrow> msg list" where
  "all_messages cr = (case chat_history cr of None \<Rightarrow> [] | Some ms \<Rightarrow> ms)"

definition extract_fields :: "chat_result \<Rightarrow> recommendations" where
  "extract_fields cr =
     (let recs = foldl specialist_step ([], []) (all_messages cr)
      in \<lparr>final_recommendation = find_final (rev (all_messages cr)),
          story_rec = fst recs,
          feed_rec = snd recs\<rparr>)"

text \<open>The text written under the heading \<open>COORDINATED STRATEGY\<close>.\<close>

definition coordinated_strategy :: "string \<Rightarrow> string" where
  "coordinated_strategy fr = strip (replace marker [] fr)"

text \<open>
  The formatted output. The first line starts with the code point U+1F3AF, which is
  beyond the 8-bit characters and is written as its four UTF-8 bytes.
\<close>

definition newline :: string where
  "newline = [CHR 0x0A]"

definition headline :: string where
  "headline = [CHR 0xF0, CHR 0x9F, CHR 0x8E, CHR 0xAF] @ '' YOUR NEXT INSTAGRAM POSTS'' @ newline
                @ replicate 50 CHR ''='' @ newline @ newline"

definition format_output :: "recommendations \<Rightarrow> string" where
  "format_output r =
     headline
     @ (if final_recommendation r \<noteq> []
        then '' COORDINATED STRATEGY:'' @ newline
               @ coordinated_strategy (final_recommendation r) @ newline @ newline
        else [])
     @ (if story_rec r \<noteq> []
        then '' STORY RECOMMENDATION:'' @ newline @ story_rec r @ newline @ newline
        else [])
     @ (if feed_rec r \<noteq> []
        then '' FEED POST RECOMMENDATION:'' @ newline @ feed_rec r @ newline @ newline
        else [])
     @ '' Ready to create your next posts!''"

definition extract_recommendations :: "chat_result \<Rightarrow> string" where
  "extract_recommendations cr = format_output (extract_fields cr)"

section \<open>Notions used in the statements about the analysis\<close>

text \<open>
  The engagement values that the analysis collects for a tag: one value for every
  occurrence of the tag in the tag list of a post, in the order of the posts. A tag that a
  post lists twice contributes that post's engagement twice.
\<close>

definition tag_engagements :: "post list \<Rightarrow> string \<Rightarrow> int list" where
  "tag_engagements posts t =
     concat (map (\<lambda>p. map (\<lambda>h. engagement p) (filter (\<lambda>h. h = t) (hashtags p))) posts)"

text \<open>The records a tag appears on, in the words of the spec.\<close>

definition records_with_tag :: "post list \<Rightarrow> string \<Rightarrow> post list" where
  "records_with_tag posts t = filter (\<lambda>p. t \<in> set (hashtags p)) posts"

section \<open>Notions used in the statements about the posting rhythm\<close>

text \<open>
  The ranges that the fields of every \<open>datetime\<close> object obey: a date of the calendar
  between the years 1 and 9999, and a time of day. \<open>strptime\<close> with the format
  \<open>%Y-%m-%d\<close> returns such a date at midnight.
\<close>

definition valid_date :: "datetime \<Rightarrow> bool" where
  "valid_date d =
     (1 \<le> year d \<and> year d \<le> 9999 \<and> 1 \<le> month d \<and> month d \<le> 12
      \<and> 1 \<le> day d \<and> day d \<le> days_in_month (year d) (month d))"

definition valid_time :: "datetime \<Rightarrow> bool" where
  "valid_time d =
     (0 \<le> hour d \<and> hour d < 24 \<and> 0 \<le> minute d \<and> minute d < 60
      \<and> 0 \<le> second d \<and> second d < 60 \<and> 0 \<le> microsecond d \<and> microsecond d < 1000000)"

definition midnight :: "datetime \<Rightarrow> bool" where
  "midnight d = (hour d = 0 \<and> minute d = 0 \<and> second d = 0 \<and> microsecond d = 0)"

section \<open>Notions used in the statements about the recent posts\<close>

text \<open>
  The data model writes the posted date as an ISO calendar date string \<open>YYYY-MM-DD\<close>:
  four digits, a hyphen, two digits, a hyphen, two digits. \<open>calendar_date\<close> is the
  date such a string denotes, as year, month and day; dates compare as these triples.
\<close>

fun iso_date :: "string \<Rightarrow> bool" where
  "iso_date [y1, y2, y3, y4, h1, m1, m2, h2, d1, d2] =
     (is_digit y1 \<and> is_digit y2 \<and> is_digit y3 \<and> is_digit y4 \<and> h1 = CHR ''-''
      \<and> is_digit m1 \<and> is_digit m2 \<and> h2 = CHR ''-'' \<and> is_digit d1 \<and> is_digit d2)"
| "iso_date _ = False"

fun calendar_date :: "string \<Rightarrow> int \<times> int \<times> int" where
  "calendar_date [y1, y2, y3, y4, h1, m1, m2, h2, d1, d2] =
     (1000 * digit_value y1 + 100 * digit_value y2 + 10 * digit_value y3 + digit_value y4,
      10 * digit_value m1 + digit_value m2,
      10 * digit_value d1 + digit_value d2)"
| "calendar_date _ = (0, 0, 0)"

section \<open>Fixtures of the worked examples\<close>

text \<open>
  The worked examples need a concrete serialisation and concrete rows. The tags are
  written separated by commas and read back by splitting at the commas; the embedding
  is left out (\<open>unit\<close>).
\<close>

fun split_on :: "char \<Rightarrow> string \<Rightarrow> string list" where
  "split_on c [] = [[]]"
| "split_on c (x # xs) =
     (if x = c then [] # split_on c xs
      else (case split_on c xs of [] \<Rightarrow> [[x]] | w # ws \<Rightarrow> (x # w) # ws))"

definition example_dumps :: "string list \<Rightarrow> string" where
  "example_dumps tags = join '','' tags"

definition example_loads :: "string \<Rightarrow> string list option" where
  "example_loads s = Some (if s = [] then [] else split_on CHR '','' s)"

definition example_row :: "string \<Rightarrow> string \<Rightarrow> int \<Rightarrow> string \<Rightarrow> string \<Rightarrow> unit row" where
  "example_row i ty eng tags dat =
     \<lparr>row_id = i, row_embedding = (), row_document = ''caption'',
      row_metadata = \<lparr>md_type = ty, md_engagement = eng, md_hashtags = tags,
                       md_date_posted = dat\<rparr>\<rparr>"

definition example_post :: "string \<Rightarrow> string \<Rightarrow> int \<Rightarrow> string list \<Rightarrow> string \<Rightarrow> post" where
  "example_post i ty eng tags dat =
     \<lparr>post_id = i, caption = ''caption'', post_type = ty, engagement = eng,
      hashtags = tags, date_posted = dat\<rparr>"

section \<open>Ingestion\<close>

lemma rows_to_posts_append:
  "rows_to_posts loads (rs @ [r]) =
     (case rows_to_posts loads rs of
        Inl e \<Rightarrow> Inl e
      | Inr posts \<Rightarrow>
         (case loads (md_hashtags (row_metadata r)) of
            None \<Rightarrow> Inl JSONDecodeError
          | Some tags \<Rightarrow>
              Inr (posts @ [\<lparr>post_id = row_id r,
                    caption = row_document r,
                    post_type = md_type (row_metadata r),
                    engagement = md_engagement (row_metadata r),
                    hashtags = tags,
                    date_posted = md_date_posted (row_metadata r)\<rparr>])))"
  by (induction rs) (auto split: option.splits sum.splits)

lemma get_all_posts_add:
  assumes "uuid4 \<notin> set (map row_id coll)"
    and "get_all_posts loads coll = Inr posts"
    and "loads (md_hashtags (row_metadata r)) = Some tags"
    and "row_id r = uuid4"
  shows "get_all_posts loads (collection_add coll r) =
           Inr (posts @ [\<lparr>post_id = row_id r,
                    caption = row_document r,
                    post_type = md_type (row_metadata r),
                    engagement = md_engagement (row_metadata r),
                    hashtags = tags,
                    date_posted = md_date_posted (row_metadata r)\<rparr>])"
  using assms
  by (simp add: get_all_posts_def collection_get_def collection_add_def rows_to_posts_append)

text \<open>
  Claim C1, as the code has it. \<open>add_post\<close> does not validate its input: whenever the
  dictionary carries a caption, a type, an engagement and a date, whatever their values
  (an empty caption and a negative engagement included), and the identifier is new,
  \<open>add_post\<close> succeeds and appends exactly one row, which holds that caption and that
  engagement.
\<close>

theorem add_post_stores_without_validation:
  assumes "pd_caption pd = Some cap"
    and "pd_type pd = Some ty"
    and "pd_engagement pd = Some eng"
    and "pd_date_posted pd = Some dat"
    and "uuid4 \<notin> set (map row_id coll)"
  shows "\<exists>r. add_post encode dumps uuid4 coll pd = Inr (uuid4, coll @ [r])
             \<and> row_id r = uuid4
             \<and> row_document r = cap
             \<and> md_engagement (row_metadata r) = eng
             \<and> get_post_count (coll @ [r]) = get_post_count coll + 1"
  using assms
  by (simp add: add_post_def collection_add_def get_post_count_def collection_count_def Let_def)

theorem add_post_stores_without_validation_witness:
  "pd_caption \<lparr>pd_caption = Some [], pd_type = Some ''promotion'', pd_engagement = Some (- 5),
       pd_hashtags = None, pd_date_posted = Some ''2024-01-01''\<rparr> = Some []
   \<and> pd_engagement \<lparr>pd_caption = Some [], pd_type = Some ''promotion'', pd_engagement = Some (- 5),
       pd_hashtags = None, pd_date_posted = Some ''2024-01-01''\<rparr> = Some (- 5)
   \<and> ''id-1'' \<notin> set (map row_id ([] :: nat row list))
   \<and> (\<exists>r. add_post length example_dumps ''id-1'' ([] :: nat row list)
              \<lparr>pd_caption = Some [], pd_type = Some ''promotion'', pd_engagement = Some (- 5),
               pd_hashtags = None, pd_date_posted = Some ''2024-01-01''\<rparr> = Inr (''id-1'', [] @ [r])
          \<and> row_id r = ''id-1''
          \<and> row_document r = []
          \<and> md_engagement (row_metadata r) = - 5
          \<and> get_post_count ([] @ [r]) = get_post_count ([] :: nat row list) + 1)"
  using add_post_stores_without_validation
          [of "\<lparr>pd_caption = Some [], pd_type = Some ''promotion'', pd_engagement = Some (- 5),
               pd_hashtags = None, pd_date_posted = Some ''2024-01-01''\<rparr>"
              "[]" "''promotion''" "- 5" "''2024-01-01''" "''id-1''" "[] :: nat row list"
              length example_dumps]
  by simp

text \<open>
  Claim C1 as the spec states it fails: an ingestion call with an empty text and a
  negative engagement is not rejected; it returns the new identifier and the record is
  in the store.
\<close>

theorem add_post_validation_counterexample:
  "add_post length example_dumps ''id-1'' ([] :: nat row list)
     \<lparr>pd_caption = Some [], pd_type = Some ''promotion'', pd_engagement = Some (- 5),
      pd_hashtags = None, pd_date_posted = Some ''2024-01-01''\<rparr>
   = Inr (''id-1'',
          [\<lparr>row_id = ''id-1'', row_embedding = 1, row_document = [],
            row_metadata = \<lparr>md_type = ''promotion'', md_engagement = - 5,
                             md_hashtags = [], md_date_posted = ''2024-01-01''\<rparr>\<rparr>])"
  by (simp add: add_post_def collection_add_def example_dumps_def Let_def)

text \<open>
  Claim C5. For every input that carries the four required keys, with a new identifier,
  a serialisation that reads back the tags it wrote and a store whose rows are readable,
  a successful \<open>add_post\<close> increases \<open>get_post_count\<close> by exactly 1, and
  \<open>get_all_posts\<close> then returns the earlier posts followed by the new one, whose tags
  (in their order), type, engagement and date are those of the input.
\<close>

theorem add_post_count_and_round_trip:
  assumes "pd_caption pd = Some cap"
    and "pd_type pd = Some ty"
    and "pd_engagement pd = Some eng"
    and "pd_date_posted pd = Some dat"
    and "tags = (case pd_hashtags pd of None \<Rightarrow> [] | Some hs \<Rightarrow> hs)"
    and "uuid4 \<notin> set (map row_id coll)"
    and "loads (dumps tags) = Some tags"
    and "get_all_posts loads coll = Inr posts"
  shows "\<exists>coll'. add_post encode dumps uuid4 coll pd = Inr (uuid4, coll')
             \<and> get_post_count coll' = get_post_count coll + 1
             \<and> get_all_posts loads coll' =
                 Inr (posts @ [\<lparr>post_id = uuid4, caption = cap, post_type = ty,
                                engagement = eng, hashtags = tags, date_posted = dat\<rparr>])"
proof -
  let ?r = "\<lparr>row_id = uuid4,
             row_embedding = encode (cap @ '' '' @ join '' '' tags),
             row_document = cap,
             row_metadata = \<lparr>md_type = ty, md_engagement = eng,
                              md_hashtags = dumps tags, md_date_posted = dat\<rparr>\<rparr>"
  have add: "add_post encode dumps uuid4 coll pd = Inr (uuid4, collection_add coll ?r)"
    using assms(1-5) by (simp add: add_post_def Let_def)
  have count: "get_post_count (collection_add coll ?r) = get_post_count coll + 1"
    using assms(6) by (simp add: collection_add_def get_post_count_def collection_count_def)
  have "get_all_posts loads (collection_add coll ?r) =
          Inr (posts @ [\<lparr>post_id = uuid4, caption = cap, post_type = ty,
                         engagement = eng, hashtags = tags, date_posted = dat\<rparr>])"
    using get_all_posts_add [OF assms(6) assms(8), of ?r tags] assms(7) by simp
  with add count show ?thesis by blast
qed

theorem add_post_count_and_round_trip_witness:
  "(\<exists>coll'. add_post length example_dumps ''id-2''
               [\<lparr>row_id = ''id-1'', row_embedding = 9, row_document = ''first'',
                 row_metadata = \<lparr>md_type = ''promotion'', md_engagement = 7,
                                  md_hashtags = ''#a,#b'', md_date_posted = ''2024-01-01''\<rparr>\<rparr>]
               \<lparr>pd_caption = Some ''second'', pd_type = Some ''educational'',
                pd_engagement = Some 12, pd_hashtags = Some [''#a'', ''#b''],
                pd_date_posted = Some ''2024-01-02''\<rparr> = Inr (''id-2'', coll')
      \<and> get_post_count coll' = 2
      \<and> get_all_posts example_loads coll' =
          Inr [\<lparr>post_id = ''id-1'', caption = ''first'', post_type = ''promotion'',
                engagement = 7, hashtags = [''#a'', ''#b''], date_posted = ''2024-01-01''\<rparr>,
               \<lparr>post_id = ''id-2'', caption = ''second'', post_type = ''educational'',
                engagement = 12, hashtags = [''#a'', ''#b''], date_posted = ''2024-01-02''\<rparr>])"
  using add_post_count_and_round_trip
          [of "\<lparr>pd_caption = Some ''second'', pd_type = Some ''educational'',
                pd_engagement = Some 12, pd_hashtags = Some [''#a'', ''#b''],
                pd_date_posted = Some ''2024-01-02''\<rparr>"
              "''second''" "''educational''" 12 "''2024-01-02''" "[''#a'', ''#b'']" "''id-2''"
              "[\<lparr>row_id = ''id-1'', row_embedding = 9, row_document = ''first'',
                 row_metadata = \<lparr>md_type = ''promotion'', md_engagement = 7,
                                  md_hashtags = ''#a,#b'', md_date_posted = ''2024-01-01''\<rparr>\<rparr>]"
              example_loads example_dumps
              "[\<lparr>post_id = ''id-1'', caption = ''first'', post_type = ''promotion'',
                engagement = 7, hashtags = [''#a'', ''#b''], date_posted = ''2024-01-01''\<rparr>]"
              length]
  by (simp add: get_all_posts_def collection_get_def get_post_count_def collection_count_def
      example_loads_def example_dumps_def)

section \<open>Sorting and recent posts\<close>

lemma mset_insort_reverse: "mset (insort_reverse f x xs) = add_mset x (mset xs)"
  by (induction xs) auto

lemma mset_sort_reverse: "mset (sort_reverse f xs) = mset xs"
  by (induction xs) (auto simp: sort_reverse_def mset_insort_reverse)

lemma set_insort_reverse: "set (insort_reverse f x xs) = insert x (set xs)"
  by (induction xs) auto

lemma length_sort_reverse: "length (sort_reverse f xs) = length xs"
  using mset_sort_reverse [of f xs] by (metis size_mset)

lemma sorted_insort_reverse:
  "sorted_wrt (\<lambda>a b. f b \<le> f a) xs \<Longrightarrow> sorted_wrt (\<lambda>a b. f b \<le> f a) (insort_reverse f x xs)"
proof (induction xs)
  case Nil
  then show ?case by simp
next
  case (Cons y ys)
  show ?case
  proof (cases "f y \<le> f x")
    case True
    with Cons.prems show ?thesis by (auto intro: order_trans)
  next
    case False
    with Cons show ?thesis by (auto simp: set_insort_reverse)
  qed
qed

lemma sorted_sort_reverse: "sorted_wrt (\<lambda>a b. f b \<le> f a) (sort_reverse f xs)"
  by (induction xs) (auto simp: sort_reverse_def sorted_insort_reverse)

text \<open>Stability: the elements with one key come out in the order they went in.\<close>

lemma filter_insort_reverse:
  "filter (\<lambda>y. f y = k) (insort_reverse f x xs) =
     (if f x = k then x # filter (\<lambda>y. f y = k) xs else filter (\<lambda>y. f y = k) xs)"
  by (induction xs) auto

lemma filter_sort_reverse:
  "filter (\<lambda>y. f y = k) (sort_reverse f xs) = filter (\<lambda>y. f y = k) xs"
  by (induction xs) (auto simp: sort_reverse_def filter_insort_reverse)

lemma example_recent_all:
  "get_all_posts example_loads
     [example_row ''1'' ''promotion'' 10 ''#a'' ''2024-01-01'',
      example_row ''2'' ''promotion'' 20 ''#a'' ''2024-01-05'',
      example_row ''3'' ''promotion'' 30 ''#a'' ''2024-01-03'']
   = Inr [example_post ''1'' ''promotion'' 10 [''#a''] ''2024-01-01'',
          example_post ''2'' ''promotion'' 20 [''#a''] ''2024-01-05'',
          example_post ''3'' ''promotion'' 30 [''#a''] ''2024-01-03'']"
  by (simp add: get_all_posts_def collection_get_def example_loads_def example_row_def
      example_post_def)

text \<open>The example of the spec: of the records dated 2024-01-01, 2024-01-05 and
  2024-01-03, \<open>recent(2)\<close> returns the one of 01-05, then the one of 01-03.\<close>

lemma example_recent_two:
  "get_recent_posts example_loads
     [example_row ''1'' ''promotion'' 10 ''#a'' ''2024-01-01'',
      example_row ''2'' ''promotion'' 20 ''#a'' ''2024-01-05'',
      example_row ''3'' ''promotion'' 30 ''#a'' ''2024-01-03''] 2
   = Inr [example_post ''2'' ''promotion'' 20 [''#a''] ''2024-01-05'',
          example_post ''3'' ''promotion'' 30 [''#a''] ''2024-01-03'']"
  by (simp add: get_recent_posts_def example_recent_all sort_reverse_def slice_to_def
      example_post_def)

section \<open>Content gaps\<close>

lemma map_of_counts:
  "map_of (map (\<lambda>t. (t, g t)) ts) t = (if t \<in> set ts then Some (g t) else None)"
  by (induction ts) auto

lemma keys_with_count:
  "set (map fst (filter (\<lambda>tc. n \<le> snd tc) (map (\<lambda>t. (t, g t)) ts))) = {t \<in> set ts. n \<le> g t}"
  by (induction ts) auto

lemma count_list_pos_iff: "0 < count_list xs x \<longleftrightarrow> x \<in> set xs"
  by (induction xs) auto

text \<open>
  Claim C7. On the empty list \<open>analyze_content_gaps\<close> returns the marker
  \<open>No recent posts to analyze\<close>. On a non-empty list it returns a report over the
  window of the first 7 posts of the list (the caller passes them most recent first):
  the mix maps each type of the window to its number of occurrences there and no other
  type, the missing types are those of the full set of types that do not occur in the
  window, and the overused types are exactly those that occur 3 or more times in it.
\<close>

theorem content_gaps_window:
  "analyze_content_gaps [] = Gap_Analysis ''No recent posts to analyze''
   \<and> (recent_posts \<noteq> [] \<longrightarrow>
        (\<exists>r. analyze_content_gaps recent_posts = Content_Gaps r
           \<and> (\<forall>t. map_of (recent_content_mix r) t =
                    (if t \<in> set (map post_type (take 7 recent_posts))
                     then Some (int (count_list (map post_type (take 7 recent_posts)) t))
                     else None))
           \<and> missing_content_types r =
                filter (\<lambda>t. t \<notin> set (map post_type (take 7 recent_posts))) all_types
           \<and> set (overused_types r) =
                {t. 3 \<le> count_list (map post_type (take 7 recent_posts)) t}))"
proof (intro conjI impI)
  show "analyze_content_gaps [] = Gap_Analysis ''No recent posts to analyze''"
    by (simp add: analyze_content_gaps_def)
next
  assume ne: "recent_posts \<noteq> []"
  let ?w = "map post_type (take 7 recent_posts)"
  let ?counts = "map (\<lambda>t. (t, int (count_list ?w t))) (remdups ?w)"
  let ?r = "\<lparr>recent_content_mix = ?counts,
             missing_content_types = filter (\<lambda>t. t \<notin> set ?w) all_types,
             overused_types = map fst (filter (\<lambda>tc. 3 \<le> snd tc) ?counts)\<rparr>"
  have res: "analyze_content_gaps recent_posts = Content_Gaps ?r"
    using ne by (simp add: analyze_content_gaps_def slice_to_def Let_def)
  have mix: "\<forall>t. map_of (recent_content_mix ?r) t =
               (if t \<in> set ?w then Some (int (count_list ?w t)) else None)"
    using map_of_counts [of "\<lambda>t. int (count_list ?w t)" "remdups ?w"] by simp
  have "set (map fst (filter (\<lambda>tc. 3 \<le> snd tc) ?counts)) = {t \<in> set ?w. 3 \<le> count_list ?w t}"
    using keys_with_count [of 3 "\<lambda>t. int (count_list ?w t)" "remdups ?w"] by simp
  also have "\<dots> = {t. 3 \<le> count_list ?w t}"
    using count_list_pos_iff [of ?w] by force
  finally have over: "set (overused_types ?r) = {t. 3 \<le> count_list ?w t}"
    by simp
  show "\<exists>r. analyze_content_gaps recent_posts = Content_Gaps r
           \<and> (\<forall>t. map_of (recent_content_mix r) t =
                    (if t \<in> set ?w then Some (int (count_list ?w t)) else None))
           \<and> missing_content_types r = filter (\<lambda>t. t \<notin> set ?w) all_types
           \<and> set (overused_types r) = {t. 3 \<le> count_list ?w t}"
    using res mix over by (intro exI [of _ ?r]) simp
qed

theorem content_gaps_window_witness:
  "analyze_content_gaps [] = Gap_Analysis ''No recent posts to analyze''
   \<and> [example_post ''1'' ''promotion'' 10 [] ''2024-01-05''] \<noteq> []
   \<and> (\<exists>r. analyze_content_gaps [example_post ''1'' ''promotion'' 10 [] ''2024-01-05'']
             = Content_Gaps r
          \<and> missing_content_types r = [''satisfying_video'', ''educational'', ''behind_scenes'']
          \<and> set (overused_types r) = {})"
proof -
  have "set (map post_type (take 7 [example_post ''1'' ''promotion'' 10 [] ''2024-01-05'']))
          = {''promotion''}"
    by (simp add: example_post_def)
  moreover have "{t. 3 \<le> count_list
                   (map post_type (take 7 [example_post ''1'' ''promotion'' 10 [] ''2024-01-05''])) t}
                   = {}"
    by (auto simp: example_post_def)
  ultimately show ?thesis
    using content_gaps_window [of "[example_post ''1'' ''promotion'' 10 [] ''2024-01-05'']"]
    by (auto simp: all_types_def)
qed

section \<open>The extractor\<close>

lemma specialist_step_fst:
  "fst (specialist_step recs m) =
     (if get_name m = ''story_specialist'' \<and> 100 < length (get_content m)
      then truncate_rec (get_content m) else fst recs)"
  by (simp add: specialist_step_def)

lemma specialist_step_snd:
  "snd (specialist_step recs m) =
     (if get_name m = ''feed_specialist'' \<and> 100 < length (get_content m)
      then truncate_rec (get_content m) else snd recs)"
  by (auto simp: specialist_step_def)

lemma foldl_specialist_fst:
  "fst (foldl specialist_step recs ms) =
     (let q = filter (\<lambda>m. get_name m = ''story_specialist'' \<and> 100 < length (get_content m)) ms
      in if q = [] then fst recs else truncate_rec (get_content (last q)))"
  by (induction ms rule: rev_induct) (simp_all add: specialist_step_fst Let_def)

lemma foldl_specialist_snd:
  "snd (foldl specialist_step recs ms) =
     (let q = filter (\<lambda>m. get_name m = ''feed_specialist'' \<and> 100 < length (get_content m)) ms
      in if q = [] then snd recs else truncate_rec (get_content (last q)))"
  by (induction ms rule: rev_induct) (simp_all add: specialist_step_snd Let_def)

text \<open>
  Claim C8. For every chat result, the field of a specialist (\<open>story_specialist\<close>,
  \<open>feed_specialist\<close>) is empty when no turn of that name has a text longer than 100
  characters; otherwise it comes from the last such turn of the transcript: its text as
  it is when that has at most 500 characters, and its first 500 characters followed by
  \<open>...\<close> when it has more.
\<close>

theorem specialist_fields_last_long_turn:
  "story_rec (extract_fields cr) =
     (let q = filter (\<lambda>m. get_name m = ''story_specialist'' \<and> 100 < length (get_content m))
                (all_messages cr)
      in if q = [] then []
         else if 500 < length (get_content (last q)) then take 500 (get_content (last q)) @ ''...''
         else get_content (last q))
   \<and> feed_rec (extract_fields cr) =
     (let q = filter (\<lambda>m. get_name m = ''feed_specialist'' \<and> 100 < length (get_content m))
                (all_messages cr)
      in if q = [] then []
         else if 500 < length (get_content (last q)) then take 500 (get_content (last q)) @ ''...''
         else get_content (last q))"
  by (simp add: extract_fields_def foldl_specialist_fst foldl_specialist_snd truncate_rec_def
      Let_def)

theorem specialist_fields_last_long_turn_witness:
  "story_rec (extract_fields \<lparr>chat_history =
       Some [\<lparr>msg_content = Some (replicate 101 CHR ''a''), msg_name = Some ''story_specialist''\<rparr>,
             \<lparr>msg_content = Some ''ok'', msg_name = Some ''story_specialist''\<rparr>]\<rparr>)
     = replicate 101 CHR ''a''
   \<and> feed_rec (extract_fields \<lparr>chat_history =
       Some [\<lparr>msg_content = Some (replicate 101 CHR ''a''), msg_name = Some ''story_specialist''\<rparr>,
             \<lparr>msg_content = Some ''ok'', msg_name = Some ''story_specialist''\<rparr>]\<rparr>)
     = []"
  using specialist_fields_last_long_turn
          [of "\<lparr>chat_history =
       Some [\<lparr>msg_content = Some (replicate 101 CHR ''a''), msg_name = Some ''story_specialist''\<rparr>,
             \<lparr>msg_content = Some ''ok'', msg_name = Some ''story_specialist''\<rparr>]\<rparr>"]
  by (simp add: all_messages_def get_name_def get_content_def)

lemma find_final_rev:
  "find_final (rev ms) =
     (let q = filter (\<lambda>m. get_name m = ''content_coordinator''
                          \<and> contains marker (upper (get_content m))) ms
      in if q = [] then [] else get_content (last q))"
proof (induction ms rule: rev_induct)
  case Nil
  then show ?case by simp
next
  case (snoc m ms)
  then show ?case by (simp add: Let_def)
qed

text \<open>
  The reverse scan: \<open>final_recommendation\<close> is the text of the last turn of the
  transcript (the first in reverse) that is attributed to \<open>content_coordinator\<close> and
  whose text, in upper case, contains the marker; without such a turn it is empty and the
  output has no strategy section.
\<close>

lemma final_recommendation_last_coordinator_turn:
  "final_recommendation (extract_fields cr) =
     (let q = filter (\<lambda>m. get_name m = ''content_coordinator''
                          \<and> contains marker (upper (get_content m))) (all_messages cr)
      in if q = [] then [] else get_content (last q))"
  by (simp add: extract_fields_def find_final_rev Let_def)

text \<open>
  Claim C3 on the code. The turn is found without regard to case, but only the marker in
  upper case is removed: for the transcript with the one turn of \<open>content_coordinator\<close>
  saying \<open>final recommendation: post a reel\<close>, the turn is selected and the strategy
  written to the output still starts with the marker, where the claim requires
  \<open>post a reel\<close>.
\<close>

theorem coordinated_strategy_keeps_lower_case_marker:
  "final_recommendation
     (extract_fields \<lparr>chat_history =
        Some [\<lparr>msg_content = Some ''final recommendation: post a reel'',
               msg_name = Some ''content_coordinator''\<rparr>]\<rparr>)
     = ''final recommendation: post a reel''
   \<and> coordinated_strategy ''final recommendation: post a reel''
     = ''final recommendation: post a reel''
   \<and> extract_recommendations \<lparr>chat_history =
        Some [\<lparr>msg_content = Some ''final recommendation: post a reel'',
               msg_name = Some ''content_coordinator''\<rparr>]\<rparr>
     = headline @ '' COORDINATED STRATEGY:'' @ newline
         @ ''final recommendation: post a reel'' @ newline @ newline
         @ '' Ready to create your next posts!''"
  by code_simp

section \<open>The analysis\<close>

lemma true_div_zero_iff: "true_div a b = Inl ZeroDivisionError \<longleftrightarrow> b = 0"
  by (simp add: true_div_def Let_def)

lemma set_update_cases:
  "p \<in> set (AList.update k v d) \<Longrightarrow> p = (k, v) \<or> p \<in> set d"
  by (induction d) (auto split: if_splits)

lemma update_absent: "map_of d k = None \<Longrightarrow> AList.update k v d = d @ [(k, v)]"
  by (induction d) (auto split: if_splits)

lemma update_last: "map_of d k = None \<Longrightarrow> AList.update k v (d @ [(k, w)]) = d @ [(k, v)]"
  by (induction d) (auto split: if_splits)

lemma dict_get_Nil: "dict_get [] k dflt = dflt"
  by (simp add: dict_get_def)

lemma append_to_absent:
  assumes "map_of d k = None"
  shows "append_to d k v = d @ [(k, [v])]"
proof -
  have "dict_get (d @ [(k, [])]) k [] = []"
    using assms by (simp add: dict_get_def map_add_def)
  with assms show ?thesis
    by (simp add: append_to_def Let_def update_absent update_last)
qed

lemma append_to_present:
  assumes "map_of d k = Some l"
  shows "append_to d k v = AList.update k (l @ [v]) d"
  using assms by (simp add: append_to_def Let_def dict_get_def)

lemma append_to_nonempty:
  assumes "[] \<notin> set (map snd d)"
  shows "[] \<notin> set (map snd (append_to d k v))"
proof (cases "map_of d k")
  case None
  with assms show ?thesis by (simp add: append_to_absent)
next
  case (Some l)
  show ?thesis
  proof
    assume "[] \<in> set (map snd (append_to d k v))"
    then obtain p where p: "p \<in> set (AList.update k (l @ [v]) d)" "snd p = []"
      using Some by (auto simp: append_to_present)
    from set_update_cases [OF p(1)] p(2) have "p \<in> set d" by auto
    with p(2) assms show False by force
  qed
qed

lemma append_to_distinct:
  "distinct (map fst d) \<Longrightarrow> distinct (map fst (append_to d k v))"
  by (simp add: append_to_def Let_def distinct_update)

lemma dict_get_append_to:
  "dict_get (append_to d k v) t [] = (if t = k then dict_get d k [] @ [v] else dict_get d t [])"
  by (simp add: append_to_def dict_get_def Let_def update_conv' split: option.splits)

lemma foldl_append_to_get:
  "dict_get (foldl (\<lambda>d h. append_to d h eng) d hs) t [] =
     dict_get d t [] @ map (\<lambda>h. eng) (filter (\<lambda>h. h = t) hs)"
  by (induction hs arbitrary: d) (simp_all add: dict_get_append_to)

lemma foldl_append_to_nonempty:
  "[] \<notin> set (map snd d) \<Longrightarrow> [] \<notin> set (map snd (foldl (\<lambda>d h. append_to d h eng) d hs))"
  by (induction hs arbitrary: d) (simp_all add: append_to_nonempty del: set_map)

lemma foldl_append_to_distinct:
  "distinct (map fst d) \<Longrightarrow> distinct (map fst (foldl (\<lambda>d h. append_to d h eng) d hs))"
  by (induction hs arbitrary: d) (simp_all add: append_to_distinct)

lemma foldl_count_hashtag_fields:
  "hashtag_engagement (foldl (count_hashtag eng) c hs) =
     foldl (\<lambda>d h. append_to d h eng) (hashtag_engagement c) hs
   \<and> type_engagement (foldl (count_hashtag eng) c hs) = type_engagement c
   \<and> type_counts (foldl (count_hashtag eng) c hs) = type_counts c
   \<and> total_engagement (foldl (count_hashtag eng) c hs) = total_engagement c"
  by (induction hs arbitrary: c) (simp_all add: count_hashtag_def)

lemma count_post_hashtag_engagement:
  "hashtag_engagement (count_post c p) =
     foldl (\<lambda>d h. append_to d h (engagement p)) (hashtag_engagement c) (hashtags p)"
  by (simp add: count_post_def Let_def foldl_count_hashtag_fields)

lemma count_post_type_engagement:
  "type_engagement (count_post c p) = append_to (type_engagement c) (post_type p) (engagement p)"
  by (simp add: count_post_def Let_def foldl_count_hashtag_fields)

lemma foldl_count_post_type_nonempty:
  "[] \<notin> set (map snd (type_engagement c)) \<Longrightarrow>
     [] \<notin> set (map snd (type_engagement (foldl count_post c ps)))"
  by (induction ps arbitrary: c)
    (simp_all add: count_post_type_engagement append_to_nonempty del: set_map)

lemma foldl_count_post_hashtag_nonempty:
  "[] \<notin> set (map snd (hashtag_engagement c)) \<Longrightarrow>
     [] \<notin> set (map snd (hashtag_engagement (foldl count_post c ps)))"
  by (induction ps arbitrary: c)
    (simp_all add: count_post_hashtag_engagement foldl_append_to_nonempty del: set_map)

lemma foldl_count_post_hashtag_distinct:
  "distinct (map fst (hashtag_engagement c)) \<Longrightarrow>
     distinct (map fst (hashtag_engagement (foldl count_post c ps)))"
  by (induction ps arbitrary: c)
    (simp_all add: count_post_hashtag_engagement foldl_append_to_distinct)

lemma foldl_count_post_hashtag_get:
  "dict_get (hashtag_engagement (foldl count_post c ps)) t [] =
     dict_get (hashtag_engagement c) t [] @ tag_engagements ps t"
  by (induction ps arbitrary: c)
    (simp_all add: count_post_hashtag_engagement foldl_append_to_get tag_engagements_def)

lemma hashtag_engagement_entry:
  assumes "(t, engs) \<in> set (hashtag_engagement (foldl count_post init_counters ps))"
  shows "engs = tag_engagements ps t"
proof -
  let ?d = "hashtag_engagement (foldl count_post init_counters ps)"
  have "distinct (map fst ?d)"
    by (rule foldl_count_post_hashtag_distinct) (simp add: init_counters_def)
  with assms have "map_of ?d t = Some engs" by simp
  then have "dict_get ?d t [] = engs" by (simp add: dict_get_def)
  moreover have "dict_get ?d t [] = tag_engagements ps t"
    by (simp add: foldl_count_post_hashtag_get init_counters_def dict_get_Nil)
  ultimately show ?thesis by simp
qed

lemma avg_by_type_no_zero_division:
  "[] \<notin> set (map snd d) \<Longrightarrow> avg_by_type acc d \<noteq> Inl ZeroDivisionError"
proof (induction d arbitrary: acc)
  case Nil
  then show ?case by simp
next
  case (Cons kv d)
  obtain k engs where kv: "kv = (k, engs)" by (cases kv)
  with Cons.prems have ne: "engs \<noteq> []" and rest: "[] \<notin> set (map snd d)" by auto
  from ne have "true_div (sum_list engs) (int (length engs)) \<noteq> Inl ZeroDivisionError"
    by (simp add: true_div_zero_iff)
  with Cons.IH [OF rest] kv show ?case
    by (auto split: sum.splits)
qed

lemma avg_by_hashtag_no_zero_division:
  "avg_by_hashtag acc d \<noteq> Inl ZeroDivisionError"
proof (induction d arbitrary: acc)
  case Nil
  then show ?case by simp
next
  case (Cons kv d)
  obtain k engs where kv: "kv = (k, engs)" by (cases kv)
  have "2 \<le> length engs \<Longrightarrow>
          true_div (sum_list engs) (int (length engs)) \<noteq> Inl ZeroDivisionError"
    by (auto simp: true_div_zero_iff)
  with Cons.IH kv show ?case
    by (auto split: sum.splits)
qed

lemma avg_by_hashtag_entry:
  assumes "avg_by_hashtag acc d = Inr res"
    and "(t, m) \<in> set res"
  shows "(t, m) \<in> set acc
         \<or> (\<exists>engs. (t, engs) \<in> set d \<and> 2 \<le> length engs
               \<and> true_div (sum_list engs) (int (length engs)) = Inr m)"
  using assms
proof (induction d arbitrary: acc)
  case Nil
  then show ?case by simp
next
  case (Cons kv d)
  obtain k engs where kv: "kv = (k, engs)" by (cases kv)
  show ?case
  proof (cases "2 \<le> length engs")
    case False
    with Cons.prems kv have "avg_by_hashtag acc d = Inr res" by simp
    from Cons.IH [OF this Cons.prems(2)] show ?thesis by auto
  next
    case True
    with Cons.prems kv obtain avg where
      avg: "true_div (sum_list engs) (int (length engs)) = Inr avg"
      and rest: "avg_by_hashtag (AList.update k avg acc) d = Inr res"
      by (auto split: sum.splits)
    from Cons.IH [OF rest Cons.prems(2)] show ?thesis
    proof
      assume "(t, m) \<in> set (AList.update k avg acc)"
      from set_update_cases [OF this] show ?thesis
        using True avg kv by auto
    next
      assume "\<exists>engs. (t, engs) \<in> set d \<and> 2 \<le> length engs
                 \<and> true_div (sum_list engs) (int (length engs)) = Inr m"
      then show ?thesis by auto
    qed
  qed
qed

lemma set_foldl_update:
  "p \<in> set (foldl (\<lambda>d kv. AList.update (fst kv) (snd kv) d) acc pairs)
     \<Longrightarrow> p \<in> set acc \<or> p \<in> set pairs"
proof (induction pairs arbitrary: acc)
  case Nil
  then show ?case by simp
next
  case (Cons kv pairs)
  from Cons.IH [OF Cons.prems [simplified]] show ?case
    using set_update_cases [of p "fst kv" "snd kv" acc] by auto
qed

lemma set_dict_of: "set (dict_of pairs) \<subseteq> set pairs"
  using set_foldl_update [of _ "[]" pairs] by (auto simp: dict_of_def)

lemma set_slice_to: "set (slice_to xs n) \<subseteq> set xs"
  by (auto simp: slice_to_def dest: in_set_takeD)

lemma set_sort_reverse: "set (sort_reverse f xs) = set xs"
  using mset_sort_reverse [of f xs] by (metis set_mset_mset)

lemma rows_to_posts_error: "rows_to_posts loads rs = Inl e \<Longrightarrow> e = JSONDecodeError"
  by (induction rs arbitrary: e) (auto split: option.splits sum.splits)

lemma rows_to_posts_length: "rows_to_posts loads rs = Inr ps \<Longrightarrow> length ps = length rs"
  by (induction rs arbitrary: ps) (auto split: option.splits sum.splits)

text \<open>
  Claim C9. On the empty store \<open>get_content_analysis\<close> raises nothing and returns the
  empty dictionary; and the empty dictionary is returned for the empty store only, so a
  caller that receives it knows that there is no data: it is neither an error nor the
  report of a store with records.
\<close>

theorem analysis_empty_store:
  "get_content_analysis loads ([] :: 'e row list) = Inr Empty_Dict
   \<and> (get_content_analysis loads (coll :: 'e row list) = Inr Empty_Dict) = (coll = [])"
proof -
  have empty: "get_content_analysis loads ([] :: 'e row list) = Inr Empty_Dict"
    by (simp add: get_content_analysis_def get_all_posts_def collection_get_def)
  have "get_content_analysis loads coll \<noteq> Inr Empty_Dict" if "coll \<noteq> []"
  proof (cases "get_all_posts loads coll")
    case (Inl e)
    then show ?thesis by (simp add: get_content_analysis_def)
  next
    case (Inr posts)
    then have "length posts = length coll"
      by (simp add: get_all_posts_def collection_get_def rows_to_posts_length)
    with that have "posts \<noteq> []" by auto
    with Inr show ?thesis
      by (simp add: get_content_analysis_def Let_def split: sum.splits)
  qed
  with empty show ?thesis by auto
qed

theorem analysis_empty_store_witness:
  "get_content_analysis example_loads ([] :: unit row list) = Inr Empty_Dict
   \<and> (get_content_analysis example_loads
         [example_row ''1'' ''promotion'' 10 ''#a'' ''2024-01-01''] = Inr Empty_Dict) = False"
  using analysis_empty_store
          [of example_loads "[example_row ''1'' ''promotion'' 10 ''#a'' ''2024-01-01'']"]
  by simp

text \<open>
  Claim C10. For every store, \<open>get_content_analysis\<close> never raises
  \<open>ZeroDivisionError\<close>: the empty store returns before any division, the length of a
  non-empty list of posts is not zero, and every list of engagements that the loop
  collects for a type or a tag has at least one element.
\<close>

theorem analysis_never_divides_by_zero:
  "get_content_analysis loads coll \<noteq> Inl ZeroDivisionError"
proof (cases "get_all_posts loads coll")
  case (Inl e)
  then have "e = JSONDecodeError"
    by (simp add: get_all_posts_def rows_to_posts_error)
  with Inl show ?thesis by (simp add: get_content_analysis_def)
next
  case (Inr posts)
  show ?thesis
  proof (cases "posts = []")
    case True
    with Inr show ?thesis by (simp add: get_content_analysis_def)
  next
    case False
    let ?c = "foldl count_post init_counters posts"
    have "[] \<notin> set (map snd (type_engagement ?c))"
      by (rule foldl_count_post_type_nonempty) (simp add: init_counters_def)
    then have by_type: "avg_by_type [] (type_engagement ?c) \<noteq> Inl ZeroDivisionError"
      by (rule avg_by_type_no_zero_division)
    have by_tag: "avg_by_hashtag [] (hashtag_engagement ?c) \<noteq> Inl ZeroDivisionError"
      by (rule avg_by_hashtag_no_zero_division)
    have total: "true_div (total_engagement ?c) (int (length posts)) \<noteq> Inl ZeroDivisionError"
      using False by (simp add: true_div_zero_iff)
    from Inr False by_type by_tag total show ?thesis
      by (auto simp: get_content_analysis_def Let_def split: sum.splits)
  qed
qed

theorem analysis_never_divides_by_zero_witness:
  "get_content_analysis example_loads
     [example_row ''1'' ''promotion'' 10 ''#a'' ''2024-01-01''] \<noteq> Inl ZeroDivisionError"
  by (rule analysis_never_divides_by_zero)

text \<open>
  Claim C2, as the code has it. For every store, a tag is a key of
  \<open>best_performing_hashtags\<close> only if it occurs at least 2 times in the tag lists of the
  posts, an occurrence repeated within one post counting each time, and its value is the
  quotient, as a float, of the sum of the engagements over these occurrences by their
  number. A tag that occurs exactly once is therefore excluded, whatever its engagement.
\<close>

theorem best_performing_hashtags_occur_twice:
  assumes "get_content_analysis loads coll = Inr (Analysis a)"
    and "get_all_posts loads coll = Inr posts"
    and "(t, m) \<in> set (best_performing_hashtags a)"
  shows "2 \<le> length (tag_engagements posts t)
         \<and> true_div (sum_list (tag_engagements posts t))
               (int (length (tag_engagements posts t))) = Inr m"
proof -
  let ?c = "foldl count_post init_counters posts"
  from assms(1,2) obtain by_hashtag where
    avg: "avg_by_hashtag [] (hashtag_engagement ?c) = Inr by_hashtag"
    and best: "best_performing_hashtags a = dict_of (slice_to (sort_reverse snd by_hashtag) 10)"
    by (auto simp: get_content_analysis_def Let_def split: sum.splits if_splits)
  from assms(3) best have "(t, m) \<in> set by_hashtag"
    using set_dict_of [of "slice_to (sort_reverse snd by_hashtag) 10"]
      set_slice_to [of "sort_reverse snd by_hashtag" 10]
      set_sort_reverse [of snd by_hashtag]
    by auto
  from avg_by_hashtag_entry [OF avg this] obtain engs where
    engs: "(t, engs) \<in> set (hashtag_engagement ?c)" "2 \<le> length engs"
      "true_div (sum_list engs) (int (length engs)) = Inr m"
    by auto
  from hashtag_engagement_entry [OF engs(1)] engs(2,3) show ?thesis by simp
qed

lemma true_div_300_2: "true_div 300 2 = Inr 150"
  by code_simp

lemma true_div_10299_3: "true_div 10299 3 = Inr 3433"
  by code_simp

lemma true_div_10_1: "true_div 10 1 = Inr 10"
  by code_simp

lemma true_div_20_2: "true_div 20 2 = Inr 10"
  by code_simp

lemma example_rare_common_posts:
  "get_all_posts example_loads
     [example_row ''1'' ''promotion'' 9999 ''#rare'' ''2024-01-01'',
      example_row ''2'' ''promotion'' 100 ''#common'' ''2024-01-02'',
      example_row ''3'' ''promotion'' 200 ''#common'' ''2024-01-03'']
   = Inr [example_post ''1'' ''promotion'' 9999 [''#rare''] ''2024-01-01'',
          example_post ''2'' ''promotion'' 100 [''#common''] ''2024-01-02'',
          example_post ''3'' ''promotion'' 200 [''#common''] ''2024-01-03'']"
  by (simp add: get_all_posts_def collection_get_def example_loads_def example_row_def
      example_post_def)

text \<open>The example of the spec: one record tagged \<open>#rare\<close> with engagement 9999 and two
  records tagged \<open>#common\<close> with engagements 100 and 200 give \<open>#common\<close> with mean 150
  and no \<open>#rare\<close>.\<close>

lemma example_rare_common:
  "get_content_analysis example_loads
     [example_row ''1'' ''promotion'' 9999 ''#rare'' ''2024-01-01'',
      example_row ''2'' ''promotion'' 100 ''#common'' ''2024-01-02'',
      example_row ''3'' ''promotion'' 200 ''#common'' ''2024-01-03'']
   = Inr (Analysis
       \<lparr>total_posts = 3, avg_engagement = 3433,
        type_distribution = [(''promotion'', 3)],
        avg_engagement_by_type = [(''promotion'', 3433)],
        top_hashtags = [(''#common'', 2), (''#rare'', 1)],
        best_performing_hashtags = [(''#common'', 150)]\<rparr>)"
  by (simp add: get_content_analysis_def example_rare_common_posts example_post_def
      count_post_def count_hashtag_def append_to_def dict_get_def init_counters_def Let_def
      dict_of_def slice_to_def sort_reverse_def true_div_300_2 true_div_10299_3)

theorem best_performing_hashtags_occur_twice_witness:
  "(''#common'', 150) \<in> set [(''#common'', 150 :: rat)]
   \<and> 2 \<le> length (tag_engagements
              [example_post ''1'' ''promotion'' 9999 [''#rare''] ''2024-01-01'',
               example_post ''2'' ''promotion'' 100 [''#common''] ''2024-01-02'',
               example_post ''3'' ''promotion'' 200 [''#common''] ''2024-01-03''] ''#common'')
   \<and> true_div (sum_list (tag_engagements
              [example_post ''1'' ''promotion'' 9999 [''#rare''] ''2024-01-01'',
               example_post ''2'' ''promotion'' 100 [''#common''] ''2024-01-02'',
               example_post ''3'' ''promotion'' 200 [''#common''] ''2024-01-03''] ''#common''))
         (int (length (tag_engagements
              [example_post ''1'' ''promotion'' 9999 [''#rare''] ''2024-01-01'',
               example_post ''2'' ''promotion'' 100 [''#common''] ''2024-01-02'',
               example_post ''3'' ''promotion'' 200 [''#common''] ''2024-01-03''] ''#common'')))
       = Inr 150"
proof -
  have h: "(''#common'', 150) \<in> set
             (best_performing_hashtags
               \<lparr>total_posts = 3, avg_engagement = 3433,
                type_distribution = [(''promotion'', 3)],
                avg_engagement_by_type = [(''promotion'', 3433)],
                top_hashtags = [(''#common'', 2), (''#rare'', 1)],
                best_performing_hashtags = [(''#common'', 150)]\<rparr>)"
    by simp
  show ?thesis
    using best_performing_hashtags_occur_twice
            [OF example_rare_common example_rare_common_posts h]
    by simp
qed

text \<open>
  Claim C2 as the spec states it, with tags counted by the records they appear on, fails
  when a record lists a tag twice: the store with the single record tagged
  \<open>#a, #a\<close> with engagement 10 has \<open>#a\<close> on exactly one record, and \<open>#a\<close> is a key
  of \<open>best_performing_hashtags\<close>.
\<close>

theorem best_performing_hashtags_single_record_counterexample:
  "get_all_posts example_loads [example_row ''1'' ''promotion'' 10 ''#a,#a'' ''2024-01-01'']
     = Inr [example_post ''1'' ''promotion'' 10 [''#a'', ''#a''] ''2024-01-01'']
   \<and> length (records_with_tag
               [example_post ''1'' ''promotion'' 10 [''#a'', ''#a''] ''2024-01-01''] ''#a'') = 1
   \<and> get_content_analysis example_loads
        [example_row ''1'' ''promotion'' 10 ''#a,#a'' ''2024-01-01'']
      = Inr (Analysis
          \<lparr>total_posts = 1, avg_engagement = 10,
           type_distribution = [(''promotion'', 1)],
           avg_engagement_by_type = [(''promotion'', 10)],
           top_hashtags = [(''#a'', 2)],
           best_performing_hashtags = [(''#a'', 10)]\<rparr>)"
  by (simp add: get_content_analysis_def get_all_posts_def collection_get_def example_loads_def
      example_row_def example_post_def records_with_tag_def
      count_post_def count_hashtag_def append_to_def dict_get_def init_counters_def Let_def
      dict_of_def slice_to_def sort_reverse_def true_div_10_1 true_div_20_2)

section \<open>Floating point\<close>

lemma round_half_even_error: "\<bar>of_int (round_half_even y) - y\<bar> \<le> 1 / 2"
proof -
  have "of_int \<lfloor>y\<rfloor> \<le> y" "y < of_int \<lfloor>y\<rfloor> + 1" by linarith+
  then show ?thesis
    by (auto simp: round_half_even_def Let_def)
qed

lemma pow2_of_int: "0 \<le> k \<Longrightarrow> (of_int (2 ^ nat k) :: rat) = 2 powi k"
  by (simp add: power_int_def)

lemma ilog2_bounds:
  assumes "0 < q"
  shows "2 powi (ilog2 q) \<le> q" and "q < 2 powi (ilog2 q + 1)"
proof -
  obtain a b where ab: "quotient_of q = (a, b)" by (cases "quotient_of q")
  then have b: "0 < b" and q: "q = of_int a / of_int b"
    by (simp_all add: quotient_of_denom_pos quotient_of_div)
  from assms b q have a: "0 < a"
    by (simp add: zero_less_divide_iff)
  let ?la = "bitlen a" and ?lb = "bitlen b"
  from a b have la: "1 \<le> ?la" and lb: "1 \<le> ?lb"
    using bitlen_eq_zero_iff [of a] bitlen_eq_zero_iff [of b] bitlen_nonneg [of a]
      bitlen_nonneg [of b] by linarith+
  have a_lo: "(2::rat) powi (?la - 1) \<le> of_int a" and a_hi: "(of_int a :: rat) < 2 powi ?la"
    using bitlen_bounds [OF a] la
    by (metis diff_ge_0_iff_ge of_int_le_iff pow2_of_int,
        metis bitlen_nonneg of_int_less_iff pow2_of_int)
  have b_lo: "(2::rat) powi (?lb - 1) \<le> of_int b" and b_hi: "(of_int b :: rat) < 2 powi ?lb"
    using bitlen_bounds [OF b] lb
    by (metis diff_ge_0_iff_ge of_int_le_iff pow2_of_int,
        metis bitlen_nonneg of_int_less_iff pow2_of_int)
  have bpos: "(0::rat) < of_int b" using b by simp
  have lower: "(2::rat) powi (?la - ?lb - 1) \<le> q"
  proof -
    have "(2::rat) powi (?la - ?lb - 1) * of_int b \<le> 2 powi (?la - ?lb - 1) * 2 powi ?lb"
      using b_hi by (simp add: less_imp_le)
    also have "\<dots> = 2 powi (?la - 1)"
      by (simp add: power_int_add [symmetric])
    also have "\<dots> \<le> of_int a" by (rule a_lo)
    finally show ?thesis
      using bpos by (simp add: q pos_le_divide_eq)
  qed
  have upper: "q < (2::rat) powi (?la - ?lb + 1)"
  proof -
    have "of_int a < (2::rat) powi ?la" by (rule a_hi)
    also have "\<dots> = 2 powi (?la - ?lb + 1) * 2 powi (?lb - 1)"
      by (simp add: power_int_add [symmetric])
    also have "\<dots> \<le> 2 powi (?la - ?lb + 1) * of_int b"
      using b_lo by simp
    finally show ?thesis
      using bpos by (simp add: q pos_divide_less_eq)
  qed
  have il: "ilog2 q = (if 2 powi (?la - ?lb) \<le> q then ?la - ?lb else ?la - ?lb - 1)"
    by (simp add: ilog2_def ab Let_def)
  show "2 powi (ilog2 q) \<le> q"
    using lower by (simp add: il)
  show "q < 2 powi (ilog2 q + 1)"
    using upper by (auto simp add: il not_le)
qed

lemma binary64_error:
  assumes "q \<noteq> 0"
  shows "\<bar>binary64 q - q\<bar> \<le> 2 powi (max (ilog2 \<bar>q\<bar>) (- 1022) - 52) / 2"
proof -
  let ?e = "max (ilog2 \<bar>q\<bar>) (- 1022) - 52"
  let ?u = "(2::rat) powi ?e"
  have u: "0 < ?u" by simp
  have "binary64 q - q = (of_int (round_half_even (q / ?u)) - q / ?u) * ?u"
    using assms u by (simp add: binary64_def Let_def algebra_simps)
  then have "\<bar>binary64 q - q\<bar> = \<bar>of_int (round_half_even (q / ?u)) - q / ?u\<bar> * ?u"
    using u by (simp add: abs_mult)
  also have "\<dots> \<le> 1 / 2 * ?u"
    using round_half_even_error [of "q / ?u"] u by (intro mult_right_mono) simp_all
  finally show ?thesis by simp
qed

lemma binary64_bound: "\<bar>binary64 q\<bar> \<le> 2 * \<bar>q\<bar> + 1"
proof (cases "q = 0")
  case True
  then show ?thesis by (simp add: binary64_def)
next
  case False
  let ?e = "max (ilog2 \<bar>q\<bar>) (- 1022) - 52"
  have "(2::rat) powi ?e \<le> \<bar>q\<bar> + 1"
  proof (cases "- 1022 \<le> ilog2 \<bar>q\<bar>")
    case True
    then have "(2::rat) powi ?e \<le> 2 powi (ilog2 \<bar>q\<bar>)"
      by (intro power_int_increasing) simp_all
    also have "\<dots> \<le> \<bar>q\<bar>" using False by (intro ilog2_bounds) simp
    finally show ?thesis by simp
  next
    case False
    then have "(2::rat) powi ?e = 2 powi (- 1074)" by simp
    also have "\<dots> \<le> 1"
      using power_int_increasing [of "- 1074" 0 "2::rat"] by simp
    finally show ?thesis by simp
  qed
  with binary64_error [OF False] show ?thesis by linarith
qed

lemma true_div_no_overflow:
  assumes "b \<noteq> 0" and "\<bar>of_int a / of_int b :: rat\<bar> \<le> 2 ^ 1000"
  shows "\<exists>r. true_div a b = Inr r"
proof -
  have "\<bar>binary64 (of_int a / of_int b)\<bar> \<le> 2 * 2 ^ 1000 + 1"
    using binary64_bound [of "of_int a / of_int b"] assms(2) by linarith
  also have "\<dots> < (2::rat) ^ 1024" by simp
  finally show ?thesis using assms(1) by (simp add: true_div_def Let_def)
qed

section \<open>Dates\<close>

lemma digit_value_range: "is_digit c \<Longrightarrow> 0 \<le> digit_value c \<and> digit_value c \<le> 9"
  by (auto simp: is_digit_def digit_value_def less_eq_char_def)

lemma digit19_value_range: "is_digit19 c \<Longrightarrow> 1 \<le> digit_value c \<and> digit_value c \<le> 9"
  by (auto simp: is_digit19_def digit_value_def less_eq_char_def)

lemma digit_value_0: "digit_value CHR ''0'' = 0"
  and digit_value_1: "digit_value CHR ''1'' = 1"
  and digit_value_3: "digit_value CHR ''3'' = 3"
  by (simp_all add: digit_value_def)

lemma digit_value_le: "c \<le> d \<Longrightarrow> digit_value c \<le> digit_value d"
  by (simp add: digit_value_def less_eq_char_def)

lemma match_month_range:
  assumes "match_month s = Some (m, rest)"
  shows "1 \<le> m \<and> m \<le> 12"
proof (cases s)
  case Nil
  with assms show ?thesis by simp
next
  case (Cons a s1)
  show ?thesis
  proof (cases s1)
    case Nil
    with Cons assms show ?thesis by simp
  next
    case (Cons b s2)
    note s = \<open>s = a # s1\<close> Cons
    consider (ten) "a = CHR ''1''" "CHR ''0'' \<le> b" "b \<le> CHR ''2''" "m = 10 * digit_value a + digit_value b"
      | (zero) "a = CHR ''0''" "is_digit19 b" "m = 10 * digit_value a + digit_value b"
      | (one) "is_digit19 a" "m = digit_value a"
      using assms s by (auto split: if_splits)
    then show ?thesis
    proof cases
      case ten
      from ten(2,3) have "0 \<le> digit_value b" "digit_value b \<le> 2"
        using digit_value_le [of "CHR ''0''" b] digit_value_le [of b "CHR ''2''"]
        by (simp_all add: digit_value_def)
      with ten(1,4) show ?thesis by (simp add: digit_value_1)
    next
      case zero
      with digit19_value_range [of b] show ?thesis by (simp add: digit_value_0)
    next
      case one
      with digit19_value_range [of a] show ?thesis by simp
    qed
  qed
qed

lemma match_day_range:
  assumes "match_day s = Some (d, rest)"
  shows "1 \<le> d \<and> d \<le> 31"
proof (cases s)
  case Nil
  with assms show ?thesis by simp
next
  case (Cons a s1)
  show ?thesis
  proof (cases s1)
    case Nil
    with Cons assms digit19_value_range [of a] show ?thesis
      by (auto split: if_splits)
  next
    case (Cons b s2)
    note s = \<open>s = a # s1\<close> Cons
    consider (thirty) "a = CHR ''3''" "CHR ''0'' \<le> b" "b \<le> CHR ''1''" "d = 10 * digit_value a + digit_value b"
      | (tens) "CHR ''1'' \<le> a" "a \<le> CHR ''2''" "is_digit b" "d = 10 * digit_value a + digit_value b"
      | (zero) "a = CHR ''0''" "is_digit19 b" "d = 10 * digit_value a + digit_value b"
      | (one) "is_digit19 a" "d = digit_value a"
      | (space) "is_digit19 b" "d = digit_value b"
      using assms s by (auto split: if_splits)
    then show ?thesis
    proof cases
      case thirty
      from thirty(2,3) have "0 \<le> digit_value b" "digit_value b \<le> 1"
        using digit_value_le [of "CHR ''0''" b] digit_value_le [of b "CHR ''1''"]
        by (simp_all add: digit_value_def)
      with thirty(1,4) show ?thesis by (simp add: digit_value_3)
    next
      case tens
      from tens(1,2) have "1 \<le> digit_value a" "digit_value a \<le> 2"
        using digit_value_le [of "CHR ''1''" a] digit_value_le [of a "CHR ''2''"]
        by (simp_all add: digit_value_def)
      with tens(3,4) digit_value_range [of b] show ?thesis by simp
    next
      case zero
      with digit19_value_range [of b] show ?thesis by (simp add: digit_value_0)
    next
      case one
      with digit19_value_range [of a] show ?thesis by simp
    next
      case space
      with digit19_value_range [of b] show ?thesis by simp
    qed
  qed
qed

lemma strptime_valid:
  assumes "strptime s = Inr d"
  shows "valid_date d \<and> midnight d"
proof -
  from assms obtain y1 y2 y3 y4 rest m rest1 dd where
    digits: "is_digit y1" "is_digit y2" "is_digit y3" "is_digit y4"
    and mm: "match_month rest = Some (m, rest1)"
    and dm: "match_day rest1 = Some (dd, [])"
    and y: "1 \<le> 1000 * digit_value y1 + 100 * digit_value y2 + 10 * digit_value y3 + digit_value y4"
    and dim: "dd \<le> days_in_month
               (1000 * digit_value y1 + 100 * digit_value y2 + 10 * digit_value y3 + digit_value y4) m"
    and d: "d = \<lparr>year = 1000 * digit_value y1 + 100 * digit_value y2 + 10 * digit_value y3
                       + digit_value y4,
                 month = m, day = dd, hour = 0, minute = 0, second = 0, microsecond = 0\<rparr>"
    unfolding strptime_def
    by (auto simp: Let_def split: list.splits if_splits option.splits prod.splits)
  have "year d \<le> 9999"
    using digits [THEN digit_value_range] by (simp add: d)
  with y dim match_month_range [OF mm] match_day_range [OF dm] show ?thesis
    by (simp add: valid_date_def midnight_def d)
qed

lemma parse_dates_valid:
  "parse_dates ps = Inr ds \<Longrightarrow> d \<in> set ds \<Longrightarrow> valid_date d \<and> midnight d"
proof (induction ps arbitrary: ds)
  case Nil
  then show ?case by simp
next
  case (Cons p ps)
  from Cons.prems(1) obtain d0 ds0 where
    "strptime (date_posted p) = Inr d0" "parse_dates ps = Inr ds0" "ds = d0 # ds0"
    by (auto split: sum.splits)
  with Cons.IH [of ds0] Cons.prems(2) strptime_valid [of "date_posted p" d0] show ?case
    by auto
qed

lemma parse_dates_length: "parse_dates ps = Inr ds \<Longrightarrow> length ds = length ps"
  by (induction ps arbitrary: ds) (auto split: sum.splits)

lemma month_cases:
  "1 \<le> m \<Longrightarrow> m \<le> 12 \<Longrightarrow>
     m = 1 \<or> m = 2 \<or> m = 3 \<or> m = 4 \<or> m = 5 \<or> m = 6 \<or> m = 7 \<or> m = 8 \<or> m = 9
       \<or> m = 10 \<or> m = 11 \<or> m = (12::int)"
  by arith

lemma days_before_month_range:
  "1 \<le> m \<Longrightarrow> m \<le> 12 \<Longrightarrow> 0 \<le> days_before_month y m \<and> days_before_month y m \<le> 335"
  using month_cases [of m] by (auto simp: days_before_month_def)

lemma days_in_month_le: "1 \<le> m \<Longrightarrow> m \<le> 12 \<Longrightarrow> days_in_month y m \<le> 31"
  using month_cases [of m] by (auto simp: days_in_month_def)

lemma toordinal_range:
  assumes "valid_date d"
  shows "1 \<le> toordinal d \<and> toordinal d \<le> 4000000"
proof -
  from assms have y: "1 \<le> year d" "year d \<le> 9999" and m: "1 \<le> month d" "month d \<le> 12"
    and dd: "1 \<le> day d" "day d \<le> days_in_month (year d) (month d)"
    by (simp_all add: valid_date_def)
  from y have "0 \<le> days_before_year (year d)" "days_before_year (year d) \<le> 3660000"
    by (simp_all add: days_before_year_def)
  with days_before_month_range [OF m, of "year d"] days_in_month_le [OF m, of "year d"] dd
  show ?thesis by (simp add: toordinal_def)
qed

lemma timedelta_days_midnight:
  "valid_time a \<Longrightarrow> midnight b \<Longrightarrow> timedelta_days a b = toordinal a - toordinal b"
  by (auto simp: timedelta_days_def valid_time_def midnight_def Let_def)

lemma midnight_valid_time: "midnight d \<Longrightarrow> valid_time d"
  by (simp add: midnight_def valid_time_def)

section \<open>Posting rhythm\<close>

lemma sum_list_abs_bound:
  "(\<And>x. x \<in> set xs \<Longrightarrow> \<bar>x\<bar> \<le> g) \<Longrightarrow> \<bar>sum_list xs\<bar> \<le> int (length xs) * (g::int)"
proof (induction xs)
  case Nil
  then show ?case by simp
next
  case (Cons x xs)
  have "\<bar>x\<bar> \<le> g" "\<bar>sum_list xs\<bar> \<le> int (length xs) * g"
    using Cons by simp_all
  then show ?case by (simp add: algebra_simps)
qed

lemma date_gaps_midnight:
  assumes "\<And>d. d \<in> set dates \<Longrightarrow> midnight d"
  shows "date_gaps dates =
           map (\<lambda>i. toordinal (dates ! i) - toordinal (dates ! (i + 1))) [0 ..< length dates - 1]"
  unfolding date_gaps_def
proof (rule map_cong [OF refl])
  fix i assume "i \<in> set [0 ..< length dates - 1]"
  then have "i < length dates" "i + 1 < length dates" by auto
  then have "midnight (dates ! i)" "midnight (dates ! (i + 1))"
    using assms by (simp_all del: midnight_def)
  then show "timedelta_days (dates ! i) (dates ! (i + 1))
               = toordinal (dates ! i) - toordinal (dates ! (i + 1))"
    by (simp add: timedelta_days_midnight midnight_valid_time)
qed

lemma average_gap_dates:
  assumes "\<And>d. d \<in> set dates \<Longrightarrow> valid_date d \<and> midnight d"
    and "2 \<le> length dates"
  shows "\<exists>avg. average_gap (date_gaps dates) = Inr avg
            \<and> true_div (sum_list (date_gaps dates)) (int (length (date_gaps dates))) = Inr avg"
proof -
  let ?gaps = "date_gaps dates"
  have gaps: "?gaps = map (\<lambda>i. toordinal (dates ! i) - toordinal (dates ! (i + 1)))
                        [0 ..< length dates - 1]"
    using assms(1) by (intro date_gaps_midnight) simp
  have len: "length ?gaps = length dates - 1"
    by (simp add: date_gaps_def)
  with assms(2) have ne: "?gaps \<noteq> []" by auto
  have "\<bar>x\<bar> \<le> 4000000" if "x \<in> set ?gaps" for x
  proof -
    from that gaps obtain i where i: "i < length dates - 1"
      and x: "x = toordinal (dates ! i) - toordinal (dates ! (i + 1))"
      by auto
    from i have "dates ! i \<in> set dates" "dates ! (i + 1) \<in> set dates" by simp_all
    then have "valid_date (dates ! i)" "valid_date (dates ! (i + 1))"
      using assms(1) by blast+
    from this [THEN toordinal_range] show ?thesis unfolding x by linarith
  qed
  then have "\<bar>sum_list ?gaps\<bar> \<le> int (length ?gaps) * 4000000"
    by (rule sum_list_abs_bound)
  moreover have n: "0 < int (length ?gaps)" using ne by simp
  ultimately have "\<bar>rat_of_int (sum_list ?gaps)\<bar> \<le> rat_of_int (int (length ?gaps)) * 4000000"
    by (metis of_int_abs of_int_le_iff of_int_mult of_int_numeral)
  then have "\<bar>rat_of_int (sum_list ?gaps) / rat_of_int (int (length ?gaps))\<bar> \<le> 4000000"
    using n by (simp add: pos_divide_le_eq mult.commute)
  also have "\<dots> \<le> (2::rat) ^ 1000" by simp
  finally obtain avg where "true_div (sum_list ?gaps) (int (length ?gaps)) = Inr avg"
    using true_div_no_overflow [of "int (length ?gaps)" "sum_list ?gaps"] n by auto
  with ne show ?thesis by (simp add: average_gap_def)
qed

section \<open>The overdue test in exact arithmetic\<close>

lemma round_half_even_ge: "of_int E \<le> y \<Longrightarrow> E \<le> round_half_even y"
proof -
  assume "of_int E \<le> y"
  then have "E \<le> \<lfloor>y\<rfloor>" by (simp add: le_floor_iff)
  then show ?thesis by (auto simp: round_half_even_def Let_def)
qed

lemma round_half_even_below_even:
  assumes "even E" "0 \<le> f" "f \<le> 1 / 2"
  shows "round_half_even (of_int E - f) = E"
proof (cases "f = 0")
  case True
  then show ?thesis by (simp add: round_half_even_def)
next
  case False
  with assms have f: "0 < f" "f \<le> 1 / 2" by simp_all
  have fl: "\<lfloor>of_int E - f\<rfloor> = E - 1"
    using f by (intro floor_unique) simp_all
  have r: "of_int E - f - of_int (E - 1) = 1 - f" by simp
  from assms(1) have odd: "odd (E - 1)" by simp
  show ?thesis
    using f odd unfolding round_half_even_def Let_def fl r by auto
qed

lemma round_half_even_thirds: "of_int j / 3 - of_int (round_half_even (of_int j / 3)) \<le> (1 / 3 :: rat)"
proof -
  have fl: "\<lfloor>rat_of_int j / 3\<rfloor> = j div 3"
    using floor_divide_of_int_eq [of j 3, where ?'a = rat] by simp
  have "rat_of_int j = of_int (3 * (j div 3) + j mod 3)" by simp
  then have r: "rat_of_int j / 3 - of_int (j div 3) = of_int (j mod 3) / 3"
    by (simp only: of_int_add of_int_mult) (simp add: field_simps)
  have "j mod 3 = 0 \<or> j mod 3 = 1 \<or> j mod 3 = 2" by presburger
  then show ?thesis
  proof (elim disjE)
    assume m: "j mod 3 = 0"
    with r have "rat_of_int j / 3 - of_int (j div 3) = 0" by simp
    then show ?thesis by (simp add: round_half_even_def Let_def fl)
  next
    assume m: "j mod 3 = 1"
    with r have "rat_of_int j / 3 - of_int (j div 3) = 1 / 3" by simp
    then show ?thesis by (simp add: round_half_even_def Let_def fl)
  next
    assume m: "j mod 3 = 2"
    with r have r2: "rat_of_int j / 3 - of_int (j div 3) = 2 / 3" by simp
    then have "round_half_even (of_int j / 3) = j div 3 + 1"
      by (simp add: round_half_even_def Let_def fl)
    with r2 show ?thesis by simp
  qed
qed

lemma ilog2_le:
  assumes "0 < x" "x < 2 powi (E + 1)"
  shows "ilog2 x \<le> E"
proof (rule ccontr)
  assume "\<not> ilog2 x \<le> E"
  then have "E + 1 \<le> ilog2 x" by simp
  then have "(2::rat) powi (E + 1) \<le> 2 powi (ilog2 x)"
    by (intro power_int_increasing) simp_all
  with ilog2_bounds(1) [OF assms(1)] assms(2) show False by simp
qed

lemma ilog2_ge:
  assumes "0 < x" "2 powi E \<le> x"
  shows "E \<le> ilog2 x"
proof (rule ccontr)
  assume "\<not> E \<le> ilog2 x"
  then have "ilog2 x + 1 \<le> E" by simp
  then have "(2::rat) powi (ilog2 x + 1) \<le> 2 powi E"
    by (intro power_int_increasing) simp_all
  with ilog2_bounds(2) [OF assms(1)] assms(2) show False by simp
qed

lemma ilog2_mono: "0 < x \<Longrightarrow> x \<le> y \<Longrightarrow> ilog2 x \<le> ilog2 y"
  using ilog2_bounds(1) [of x] by (intro ilog2_ge) simp_all

lemma binary64_nonneg:
  assumes "0 \<le> x"
  shows "0 \<le> binary64 x"
proof (cases "x = 0")
  case True
  then show ?thesis by (simp add: binary64_def)
next
  case False
  let ?u = "(2::rat) powi (max (ilog2 \<bar>x\<bar>) (- 1022) - 52)"
  have "0 \<le> x / ?u" using assms by simp
  then have "0 \<le> round_half_even (x / ?u)"
    using round_half_even_ge [of 0 "x / ?u"] by simp
  then show ?thesis
    using False by (simp add: binary64_def Let_def)
qed

lemma binary64_error_below:
  assumes "0 < x" "x < 2 powi (E + 1)" "- 1022 \<le> E"
  shows "\<bar>binary64 x - x\<bar> \<le> 2 powi (E - 53)"
proof -
  have "ilog2 \<bar>x\<bar> \<le> E" using assms(1,2) by (intro ilog2_le) simp_all
  with assms(3) have "max (ilog2 \<bar>x\<bar>) (- 1022) - 52 \<le> E - 52" by simp
  then have "(2::rat) powi (max (ilog2 \<bar>x\<bar>) (- 1022) - 52) \<le> 2 powi (E - 52)"
    by (intro power_int_increasing) simp_all
  moreover have "(2::rat) powi (E - 52) = 2 * 2 powi (E - 53)"
    using power_int_add [of "2::rat" 1 "E - 53"] by simp
  ultimately show ?thesis
    using binary64_error [of x] assms(1) by simp
qed

lemma pow2_neg_inverse: "(2::rat) powi e * of_int (2 ^ nat (- e)) = 1" if "e \<le> 0"
proof (cases "e = 0")
  case True
  then show ?thesis by simp
next
  case False
  have "(1 / 2 :: rat) ^ nat (- e) * 2 ^ nat (- e) = (1 / 2 * 2) ^ nat (- e)"
    by (simp only: power_mult_distrib)
  with False show ?thesis using that by (simp add: power_int_def)
qed

lemma pow2_m32: "(2::rat) powi (- 32) = 1 / 4294967296"
  and pow2_m31: "(2::rat) powi (- 31) = 1 / 2147483648"
  by (simp_all add: power_int_minus inverse_eq_divide)

lemma binary64_normal:
  assumes "0 < x" "- 1022 \<le> ilog2 x"
  shows "binary64 x = of_int (round_half_even (x / 2 powi (ilog2 x - 52))) * 2 powi (ilog2 x - 52)"
  using assms by (simp add: binary64_def Let_def max_def)

lemma overdue_exact_core:
  fixes S n k :: int
  assumes S: "0 \<le> S" "S \<le> 4000000 * n" and n: "0 < n" "n \<le> 2 ^ 28"
  shows "float_mul (binary64 (of_int S / of_int n)) (3 / 2) < of_int k \<longleftrightarrow> 3 * S < 2 * k * n"
proof -
  define q :: rat where "q = of_int S / of_int n"
  define a where "a = binary64 q"
  define x where "x = a * (3 / 2)"
  define p where "p = binary64 x"
  have fm: "float_mul (binary64 (of_int S / of_int n)) (3 / 2) = p"
    by (simp add: float_mul_def p_def x_def a_def q_def)
  have npos: "(0::rat) < of_int n" using n(1) by simp
  have nle: "rat_of_int n \<le> 268435456"
    using n(2) of_int_le_iff [of n "2 ^ 28", where ?'a = rat] by simp
  have key: "3 / 2 * q - of_int k = of_int (3 * S - 2 * k * n) / (2 * of_int n)"
    using npos by (simp add: q_def field_simps)
  have key2: "of_int k - 3 / 2 * q = of_int (2 * k * n - 3 * S) / (2 * of_int n)"
    using npos by (simp add: q_def field_simps)
  show ?thesis
  proof (cases "S = 0")
    case True
    then have "p = 0" by (simp add: p_def x_def a_def q_def binary64_def)
    with True n(1) show ?thesis
      unfolding fm by (simp add: zero_less_mult_iff)
  next
    case False
    with S(1) have Spos: "1 \<le> S" by simp
    have q_pos: "0 < q" using Spos npos by (simp add: q_def)
    have q_ge: "1 / 268435456 \<le> q"
    proof -
      have "1 / 268435456 \<le> 1 / rat_of_int n"
        using npos nle by (simp add: field_simps)
      also have "\<dots> \<le> q"
        using Spos npos by (simp add: q_def divide_right_mono)
      finally show ?thesis .
    qed
    have q_le: "q \<le> 4000000"
    proof -
      have "rat_of_int S \<le> 4000000 * rat_of_int n"
        using S(2) of_int_le_iff [of S "4000000 * n", where ?'a = rat] by simp
      then show ?thesis using npos by (simp add: q_def pos_divide_le_eq)
    qed
    have err_a: "\<bar>a - q\<bar> \<le> 1 / 4294967296"
    proof -
      have "q < 2 powi (21 + 1)" using q_le by simp
      from binary64_error_below [OF q_pos this] have "\<bar>binary64 q - q\<bar> \<le> 2 powi (- 32)"
        by simp
      then show ?thesis by (simp only: a_def pow2_m32)
    qed
    have x_pos: "0 < x" using err_a q_ge unfolding x_def by linarith
    have x_lt: "x < 8388608" using err_a q_le unfolding x_def by linarith
    have err_p: "\<bar>p - x\<bar> \<le> 1 / 2147483648"
    proof -
      have "x < 2 powi (22 + 1)" using x_lt by simp
      from binary64_error_below [OF x_pos this] have "\<bar>binary64 x - x\<bar> \<le> 2 powi (- 31)"
        by simp
      then show ?thesis by (simp only: p_def pow2_m31)
    qed
    have total: "\<bar>p - 3 / 2 * q\<bar> < 1 / 1073741824"
      using err_a err_p unfolding x_def by linarith
    have margin: "1 / 536870912 \<le> 1 / (2 * rat_of_int n)"
      using npos nle by (simp add: field_simps)
    consider (less) "3 * S < 2 * k * n" | (greater) "2 * k * n < 3 * S" | (equal) "3 * S = 2 * k * n"
      by linarith
    then show ?thesis
    proof cases
      case less
      then have "2 * k * n - 3 * S \<ge> 1" by simp
      then have "1 \<le> rat_of_int (2 * k * n - 3 * S)"
        by (simp only: of_int_1_le_iff)
      then have "1 / (2 * rat_of_int n) \<le> of_int (2 * k * n - 3 * S) / (2 * of_int n)"
        using npos by (simp add: divide_right_mono)
      also have "\<dots> = of_int k - 3 / 2 * q"
        by (simp only: key2)
      finally have "p < of_int k" using total margin by linarith
      with less show ?thesis by (simp add: fm)
    next
      case greater
      then have "3 * S - 2 * k * n \<ge> 1" by simp
      then have "1 \<le> rat_of_int (3 * S - 2 * k * n)"
        by (simp only: of_int_1_le_iff)
      then have "1 / (2 * rat_of_int n) \<le> of_int (3 * S - 2 * k * n) / (2 * of_int n)"
        using npos by (simp add: divide_right_mono)
      also have "\<dots> = 3 / 2 * q - of_int k"
        by (simp only: key)
      finally have "of_int k < p" using total margin by linarith
      with greater show ?thesis by (simp add: fm)
    next
      case equal
      have kq: "of_int k = 3 / 2 * q" using key equal by simp
      then have q_k: "q = rat_of_int k * 2 / 3" by simp
      from kq q_pos have "(0::rat) < of_int k" by simp
      then have kpos: "1 \<le> k" by simp
      then have k1: "(1::rat) \<le> of_int k" by simp
      have q_half: "2 powi (- 1) \<le> q" using q_k k1 by (simp add: power_int_def)
      have ilq_lo: "- 1 \<le> ilog2 q" using q_pos q_half by (rule ilog2_ge)
      have ilq_hi: "ilog2 q \<le> 21"
      proof (rule ilog2_le [OF q_pos])
        show "q < 2 powi (21 + 1)" using q_le by simp
      qed
      define eq where "eq = ilog2 q - 52"
      define uq where "uq = (2::rat) powi eq"
      have eq_neg: "eq \<le> 0" using ilq_hi by (simp add: eq_def)
      have uq_pos: "0 < uq" by (simp add: uq_def)
      have a_eq: "a = of_int (round_half_even (q / uq)) * uq"
        unfolding a_def uq_def eq_def using q_pos ilq_lo by (intro binary64_normal) simp_all
      have uq_inv: "uq * of_int (2 ^ nat (- eq)) = 1"
        unfolding uq_def using eq_neg by (rule pow2_neg_inverse)
      then have inv_q: "1 / uq = of_int (2 ^ nat (- eq))"
        using uq_pos by (simp add: field_simps)
      have "q / uq = q * (1 / uq)" by simp
      also have "\<dots> = rat_of_int k * 2 / 3 * of_int (2 ^ nat (- eq))"
        by (simp only: inv_q q_k)
      also have "\<dots> = rat_of_int (2 * k * 2 ^ nat (- eq)) / 3"
        by simp
      finally have q_thirds: "q / uq = rat_of_int (2 * k * 2 ^ nat (- eq)) / 3" .
      have "q / uq - of_int (round_half_even (q / uq)) \<le> 1 / 3"
        unfolding q_thirds by (rule round_half_even_thirds)
      then have "(q / uq - of_int (round_half_even (q / uq))) * uq \<le> 1 / 3 * uq"
        using uq_pos by (intro mult_right_mono) simp_all
      then have qa: "q - a \<le> uq / 3"
        using uq_pos by (simp add: a_eq algebra_simps)
      have uq_le_q: "uq \<le> q"
      proof -
        have "uq \<le> 2 powi (ilog2 q)"
          unfolding uq_def eq_def by (intro power_int_increasing) simp_all
        also have "\<dots> \<le> q" using q_pos by (rule ilog2_bounds)
        finally show ?thesis .
      qed
      have x_ge: "of_int k - uq / 2 \<le> x"
        using qa by (simp add: x_def kq) 
      have q_le_x: "q \<le> x"
        using x_ge uq_le_q kq by linarith
      have ilx_lo: "- 1 \<le> ilog2 x"
        using ilq_lo ilog2_mono [OF q_pos q_le_x] by simp
      have ilx_hi: "ilog2 x \<le> 22"
      proof (rule ilog2_le [OF x_pos])
        show "x < 2 powi (22 + 1)" using x_lt by simp
      qed
      define ex where "ex = ilog2 x - 52"
      define ux where "ux = (2::rat) powi ex"
      have ex_neg: "ex \<le> - 30" using ilx_hi by (simp add: ex_def)
      have ux_pos: "0 < ux" by (simp add: ux_def)
      have p_eq: "p = of_int (round_half_even (x / ux)) * ux"
        unfolding p_def ux_def ex_def using x_pos ilx_lo by (intro binary64_normal) simp_all
      have uq_le_ux: "uq \<le> ux"
        unfolding uq_def ux_def eq_def ex_def
        using ilog2_mono [OF q_pos q_le_x] by (intro power_int_increasing) simp_all
      define E where "E = k * 2 ^ nat (- ex)"
      have ux_inv: "ux * of_int (2 ^ nat (- ex)) = 1"
        unfolding ux_def using ex_neg by (intro pow2_neg_inverse) simp
      then have inv_x: "1 / ux = of_int (2 ^ nat (- ex))"
        using ux_pos by (simp add: field_simps)
      have "rat_of_int E = of_int k * of_int (2 ^ nat (- ex))"
        by (simp add: E_def)
      also have "\<dots> = of_int k * (1 / ux)"
        by (simp only: inv_x)
      also have "\<dots> = of_int k / ux" by simp
      finally have E_eq: "of_int E = of_int k / ux" .
      have "0 < nat (- ex)" using ex_neg by simp
      then have E_even: "even E" by (simp add: E_def)
      have E_ux: "of_int E * ux = of_int k"
        using ux_pos by (simp add: E_eq)
      have "of_int k \<le> p"
      proof (cases "of_int k \<le> x")
        case True
        then have "of_int E \<le> x / ux"
          using ux_pos by (simp add: E_eq divide_right_mono)
        then have "E \<le> round_half_even (x / ux)" by (rule round_half_even_ge)
        then have "rat_of_int E \<le> of_int (round_half_even (x / ux))" by simp
        then have "of_int E * ux \<le> of_int (round_half_even (x / ux)) * ux"
          using ux_pos by (intro mult_right_mono) simp_all
        then show ?thesis by (simp add: p_eq E_ux)
      next
        case False
        define f where "f = (of_int k - x) / ux"
        have f0: "0 \<le> f" using False ux_pos by (simp add: f_def)
        have "of_int k - x \<le> ux / 2" using x_ge uq_le_ux by linarith
        then have f1: "f \<le> 1 / 2"
          using ux_pos by (simp add: f_def pos_divide_le_eq)
        have "x / ux = of_int E - f"
          by (simp add: f_def E_eq diff_divide_distrib)
        then have "round_half_even (x / ux) = E"
          using round_half_even_below_even [OF E_even f0 f1] by simp
        then show ?thesis by (simp add: p_eq E_ux)
      qed
      with equal show ?thesis by (simp add: fm)
    qed
  qed
qed

lemma div_step:
  fixes y c :: int
  assumes "0 < c"
  shows "y div c = (y - 1) div c + (if y mod c = 0 then 1 else 0)"
proof (cases "y mod c = 0")
  case True
  have yc: "c * (y div c) = y"
    using True mult_div_mod_eq [of c y] by simp
  have "c * (y div c - 1) + (c - 1) = c * (y div c) - 1"
    by (simp add: right_diff_distrib)
  with yc have eq: "y - 1 = c * (y div c - 1) + (c - 1)" by simp
  have "(y - 1) div c = y div c - 1"
    by (rule int_div_pos_eq [OF eq]) (use assms in simp_all)
  with True show ?thesis by simp
next
  case False
  have m: "0 \<le> y mod c" "y mod c < c" using assms by simp_all
  have eq: "y - 1 = c * (y div c) + (y mod c - 1)"
    using mult_div_mod_eq [of c y] by simp
  have "(y - 1) div c = y div c"
    by (rule int_div_pos_eq [OF eq]) (use assms m False in simp_all)
  with False show ?thesis by simp
qed
lemma mod4_of_mod100: "(y::int) mod 4 = 0" if "y mod 100 = 0"
proof -
  from that have "100 dvd y" by (simp add: mod_eq_0_iff_dvd)
  moreover have "(4::int) dvd 100" by simp
  ultimately have "4 dvd y" by (rule dvd_trans [rotated])
  then show ?thesis by (simp add: mod_eq_0_iff_dvd)
qed

lemma mod100_of_mod400: "(y::int) mod 100 = 0" if "y mod 400 = 0"
proof -
  from that have "400 dvd y" by (simp add: mod_eq_0_iff_dvd)
  moreover have "(100::int) dvd 400" by simp
  ultimately have "100 dvd y" by (rule dvd_trans [rotated])
  then show ?thesis by (simp add: mod_eq_0_iff_dvd)
qed

lemma days_before_year_step:
  "days_before_year (y + 1) = days_before_year y + (if is_leap y then 366 else 365)"
proof -
  have next_year: "days_before_year (y + 1) = y * 365 + y div 4 - y div 100 + y div 400"
    by (simp add: days_before_year_def)
  have this_year: "days_before_year y =
      (y - 1) * 365 + (y - 1) div 4 - (y - 1) div 100 + (y - 1) div 400"
    by (simp add: days_before_year_def)
  have s4: "y div 4 = (y - 1) div 4 + (if y mod 4 = 0 then 1 else 0)"
    by (rule div_step) simp
  have s100: "y div 100 = (y - 1) div 100 + (if y mod 100 = 0 then 1 else 0)"
    by (rule div_step) simp
  have s400: "y div 400 = (y - 1) div 400 + (if y mod 400 = 0 then 1 else 0)"
    by (rule div_step) simp
  have eq: "days_before_year (y + 1) = days_before_year y + 365
      + (if y mod 4 = 0 then 1 else 0) - (if y mod 100 = 0 then 1 else 0)
      + (if y mod 400 = 0 then 1 else 0)"
    unfolding next_year this_year by (simp only: s4 s100 s400) (simp add: algebra_simps)
  show ?thesis
  proof (cases "y mod 4 = 0")
    case False
    then have "y mod 100 \<noteq> 0" "y mod 400 \<noteq> 0"
      using mod4_of_mod100 [of y] mod100_of_mod400 [of y] by auto
    with False show ?thesis
      unfolding eq is_leap_def by simp
  next
    case m4: True
    show ?thesis
    proof (cases "y mod 100 = 0")
      case False
      then have "y mod 400 \<noteq> 0" using mod100_of_mod400 [of y] by auto
      with m4 False show ?thesis
        unfolding eq is_leap_def by simp
    next
      case m100: True
      show ?thesis
        using m4 m100 unfolding eq is_leap_def by simp
    qed
  qed
qed

lemma days_before_year_mono: "y \<le> y' \<Longrightarrow> days_before_year y \<le> days_before_year y'"
proof (induction y' rule: int_ge_induct)
  case base
  show ?case by simp
next
  case (step i)
  have "days_before_year i \<le> days_before_year (i + 1)"
    unfolding days_before_year_step by simp
  with step show ?case by simp
qed

lemma day_of_year_le:
  assumes "valid_date d"
  shows "days_before_month (year d) (month d) + day d \<le> (if is_leap (year d) then 366 else 365)"
proof -
  from assms have m: "1 \<le> month d" "month d \<le> 12"
    and dd: "day d \<le> days_in_month (year d) (month d)"
    by (simp_all add: valid_date_def)
  from month_cases [OF m] dd show ?thesis
    by (auto simp: days_before_month_def days_in_month_def split: if_splits)
qed

lemma days_before_month_step:
  assumes "1 \<le> m" "m \<le> 11"
  shows "days_before_month y (m + 1) = days_before_month y m + days_in_month y m"
proof -
  from assms have "1 \<le> m" "m \<le> 12" by simp_all
  from month_cases [OF this] assms(2) show ?thesis
    by (auto simp: days_before_month_def days_in_month_def)
qed

lemma days_before_month_mono:
  "m \<le> m' \<Longrightarrow> 1 \<le> m \<Longrightarrow> m' \<le> 12 \<Longrightarrow> days_before_month y m \<le> days_before_month y m'"
proof (induction m' rule: int_ge_induct)
  case base
  show ?case by simp
next
  case (step i)
  then have i: "1 \<le> i" "i \<le> 11" by simp_all
  have "0 \<le> days_in_month y i"
    using month_cases [of i] i by (auto simp: days_in_month_def)
  with step i show ?case by (simp add: days_before_month_step)
qed

lemma days_before_month_next:
  assumes "1 \<le> m1" "m1 < m2" "m2 \<le> 12"
  shows "days_before_month y m1 + days_in_month y m1 \<le> days_before_month y m2"
proof -
  have "days_before_month y m1 + days_in_month y m1 = days_before_month y (m1 + 1)"
    using assms by (simp add: days_before_month_step)
  also have "\<dots> \<le> days_before_month y m2"
    using assms by (intro days_before_month_mono) simp_all
  finally show ?thesis .
qed

lemma toordinal_mono:
  assumes "valid_date a" "valid_date b"
    and "(year a, month a, day a) \<le> (year b, month b, day b)"
  shows "toordinal a \<le> toordinal b"
proof -
  from assms(1) have a: "1 \<le> month a" "month a \<le> 12" "1 \<le> day a"
    "day a \<le> days_in_month (year a) (month a)"
    by (simp_all add: valid_date_def)
  from assms(2) have b: "1 \<le> month b" "month b \<le> 12" "1 \<le> day b"
    by (simp_all add: valid_date_def)
  from assms(3) have "year a < year b \<or> year a \<le> year b
      \<and> (month a < month b \<or> month a \<le> month b \<and> day a \<le> day b)"
    by (simp add: less_eq_prod_def)
  then consider (year) "year a < year b"
    | (month) "year a = year b" "month a < month b"
    | (day) "year a = year b" "month a = month b" "day a \<le> day b"
    by linarith
  then show ?thesis
  proof cases
    case year
    have "toordinal a \<le> days_before_year (year a + 1)"
      using day_of_year_le [OF assms(1)]
      by (simp add: toordinal_def days_before_year_step split: if_splits)
    also have "\<dots> \<le> days_before_year (year b)"
      using year by (intro days_before_year_mono) simp
    also have "\<dots> \<le> toordinal b"
      using days_before_month_range [OF b(1,2), of "year b"] b(3) by (simp add: toordinal_def)
    finally show ?thesis .
  next
    case month
    with days_before_month_next [OF a(1) month(2) b(2), of "year a"] a(4) b(3) show ?thesis
      by (simp add: toordinal_def)
  next
    case day
    then show ?thesis by (simp add: toordinal_def)
  qed
qed

lemma datetime_key_midnight:
  assumes "midnight a" "midnight b" "datetime_key a \<le> datetime_key b"
  shows "(year a, month a, day a) \<le> (year b, month b, day b)"
  using assms by (auto simp: datetime_key_def midnight_def less_eq_prod_def less_prod_def)

lemma date_gaps_nonneg:
  assumes "\<And>d. d \<in> set dates \<Longrightarrow> valid_date d \<and> midnight d"
    and "sorted_wrt (\<lambda>a b. datetime_key b \<le> datetime_key a) dates"
    and "i < length dates - 1"
  shows "0 \<le> toordinal (dates ! i) - toordinal (dates ! (i + 1))"
proof -
  from assms(3) have i: "i < i + 1" "i + 1 < length dates" by simp_all
  from sorted_wrt_nth_less [OF assms(2) i]
  have key: "datetime_key (dates ! (i + 1)) \<le> datetime_key (dates ! i)" .
  from i have "dates ! i \<in> set dates" "dates ! (i + 1) \<in> set dates" by simp_all
  then have v: "valid_date (dates ! i)" "midnight (dates ! i)"
    "valid_date (dates ! (i + 1))" "midnight (dates ! (i + 1))"
    using assms(1) by blast+
  from toordinal_mono [OF v(3) v(1) datetime_key_midnight [OF v(4) v(2) key]]
  show ?thesis by simp
qed

section \<open>The posting rhythm report\<close>

lemma true_div_Inr: "true_div a b = Inr r \<Longrightarrow> r = binary64 (of_int a / of_int b)"
  by (auto simp: true_div_def Let_def split: if_splits)

lemma sum_list_gaps_range:
  assumes "\<And>d. d \<in> set dates \<Longrightarrow> valid_date d \<and> midnight d"
    and "sorted_wrt (\<lambda>a b. datetime_key b \<le> datetime_key a) dates"
    and "gaps = map (\<lambda>i. toordinal (dates ! i) - toordinal (dates ! (i + 1)))
                  [0 ..< length dates - 1]"
  shows "0 \<le> sum_list gaps \<and> sum_list gaps \<le> 4000000 * int (length gaps)"
proof -
  have nonneg: "0 \<le> x" if "x \<in> set gaps" for x
    using that date_gaps_nonneg [OF assms(1,2)] unfolding assms(3) by auto
  have "x \<le> 4000000" if "x \<in> set gaps" for x
  proof -
    from that obtain i where i: "i < length dates - 1"
      and x: "x = toordinal (dates ! i) - toordinal (dates ! (i + 1))"
      unfolding assms(3) by auto
    from i have "dates ! i \<in> set dates" "dates ! (i + 1) \<in> set dates" by simp_all
    then have "valid_date (dates ! i)" "valid_date (dates ! (i + 1))"
      using assms(1) by blast+
    from this [THEN toordinal_range] show ?thesis unfolding x by linarith
  qed
  with nonneg have "\<bar>x\<bar> \<le> 4000000" if "x \<in> set gaps" for x
    using that by fastforce
  then have "\<bar>sum_list gaps\<bar> \<le> int (length gaps) * 4000000"
    by (rule sum_list_abs_bound)
  moreover have "0 \<le> sum_list gaps"
    using nonneg by (rule sum_list_nonneg)
  ultimately show ?thesis by simp
qed

text \<open>
  Claim C4. On a list of fewer than 2 posts \<open>analyze_posting_rhythm\<close> returns the marker
  \<open>Not enough posts to analyze rhythm\<close>. On a list of 2 or more posts whose dates
  parse, evaluated at a moment \<open>now\<close>, it returns a report made from the dates sorted
  descending (a rearrangement of the parsed dates, latest first): the days since the last
  post are the day of \<open>now\<close> minus the day of the latest date; the average gap is the
  quotient, as a float, of the sum of the gaps in days between each two consecutive sorted
  dates by their number, and it is printed with one decimal; and the status is
  \<open>overdue\<close> exactly when the days since the last post are greater than the float
  product of the average gap and 1.5, otherwise \<open>on_schedule\<close>. For lists of at most
  \<open>2\<^sup>2\<^sup>8\<close> posts the rounding of the two float operations never changes the outcome:
  the status is \<open>overdue\<close> exactly when the days since the last post are greater than
  1.5 times the exact mean of the gaps.
\<close>

theorem posting_rhythm_report:
  "(length recent_posts < 2 \<longrightarrow>
      analyze_posting_rhythm now recent_posts =
        Inr (Rhythm_Marker ''Not enough posts to analyze rhythm''))
   \<and> (2 \<le> length recent_posts \<and> parse_dates recent_posts = Inr parsed \<and> valid_time now \<longrightarrow>
        (\<exists>dates gaps avg_gap days_since_last status.
            mset dates = mset parsed
          \<and> sorted_wrt (\<lambda>a b. datetime_key b \<le> datetime_key a) dates
          \<and> days_since_last = toordinal now - toordinal (hd dates)
          \<and> gaps = map (\<lambda>i. toordinal (dates ! i) - toordinal (dates ! (i + 1)))
                      [0 ..< length dates - 1]
          \<and> true_div (sum_list gaps) (int (length gaps)) = Inr avg_gap
          \<and> status = (if float_mul avg_gap (3 / 2) < of_int days_since_last
                       then ''overdue'' else ''on_schedule'')
          \<and> (length recent_posts \<le> 2 ^ 28 \<longrightarrow>
                (status = ''overdue'')
                  = (3 / 2 * (rat_of_int (sum_list gaps) / rat_of_int (int (length gaps)))
                       < rat_of_int days_since_last))
          \<and> analyze_posting_rhythm now recent_posts =
              Inr (Rhythm
                \<lparr>days_since_last_post = days_since_last,
                 average_posting_frequency = ''Every '' @ format_1f avg_gap @ '' days'',
                 posting_status = status\<rparr>)))"
proof (intro conjI impI)
  assume "length recent_posts < 2"
  then show "analyze_posting_rhythm now recent_posts =
               Inr (Rhythm_Marker ''Not enough posts to analyze rhythm'')"
    by (simp add: analyze_posting_rhythm_def)
next
  assume a: "2 \<le> length recent_posts \<and> parse_dates recent_posts = Inr parsed \<and> valid_time now"
  let ?dates = "sort_reverse datetime_key parsed"
  let ?gaps = "map (\<lambda>i. toordinal (?dates ! i) - toordinal (?dates ! (i + 1)))
                 [0 ..< length ?dates - 1]"
  let ?days = "toordinal now - toordinal (hd ?dates)"
  from a have len_eq: "length ?dates = length recent_posts"
    using parse_dates_length [of recent_posts parsed] by (simp add: length_sort_reverse)
  with a have len: "2 \<le> length ?dates" by simp
  have valid: "valid_date d \<and> midnight d" if "d \<in> set ?dates" for d
    using that a parse_dates_valid [of recent_posts parsed d] by (simp add: set_sort_reverse)
  have sorted: "sorted_wrt (\<lambda>a b. datetime_key b \<le> datetime_key a) ?dates"
    by (rule sorted_sort_reverse)
  have gaps: "date_gaps ?dates = ?gaps"
    using valid by (intro date_gaps_midnight) simp
  from average_gap_dates [of ?dates, OF valid len] obtain avg where
    avg: "average_gap (date_gaps ?dates) = Inr avg"
      "true_div (sum_list (date_gaps ?dates)) (int (length (date_gaps ?dates))) = Inr avg"
    by blast
  let ?status = "if float_mul avg (3 / 2) < of_int ?days then ''overdue'' else ''on_schedule''"
  from len have "?dates \<noteq> []" by auto
  then have hd: "?dates ! 0 = hd ?dates" by (simp add: hd_conv_nth)
  with \<open>?dates \<noteq> []\<close> valid have "midnight (?dates ! 0)"
    by (metis hd_in_set)
  with a have days: "timedelta_days now (?dates ! 0) = ?days"
    by (simp add: timedelta_days_midnight hd del: midnight_def)
  have res: "analyze_posting_rhythm now recent_posts =
          Inr (Rhythm
            \<lparr>days_since_last_post = ?days,
             average_posting_frequency = ''Every '' @ format_1f avg @ '' days'',
             posting_status = ?status\<rparr>)"
    using a avg(1) days by (simp add: analyze_posting_rhythm_def Let_def)
  have exact: "(?status = ''overdue'')
                 = (3 / 2 * (rat_of_int (sum_list ?gaps) / rat_of_int (int (length ?gaps)))
                      < rat_of_int ?days)"
    if small: "length recent_posts \<le> 2 ^ 28"
  proof -
    let ?S = "sum_list ?gaps" and ?n = "int (length ?gaps)"
    have n: "0 < ?n" "?n \<le> 2 ^ 28"
    proof -
      show "0 < ?n" using len by simp
      have "length ?gaps \<le> 2 ^ 28" using small len_eq by simp
      then have "?n \<le> int (2 ^ 28)" by (simp only: of_nat_le_iff)
      then show "?n \<le> 2 ^ 28" by simp
    qed
    from sum_list_gaps_range [OF valid sorted refl]
    have S: "0 \<le> ?S" "?S \<le> 4000000 * ?n" by simp_all
    have "avg = binary64 (of_int ?S / of_int ?n)"
      using avg(2) unfolding gaps by (rule true_div_Inr)
    then have "float_mul avg (3 / 2) < of_int ?days \<longleftrightarrow> 3 * ?S < 2 * ?days * ?n"
      using overdue_exact_core [OF S n, of ?days] by simp
    also have "\<dots> \<longleftrightarrow> rat_of_int (3 * ?S) < rat_of_int (2 * ?days * ?n)"
      by (simp only: of_int_less_iff)
    also have "\<dots> \<longleftrightarrow> 3 / 2 * (rat_of_int ?S / rat_of_int ?n) < rat_of_int ?days"
    proof -
      have "(0::rat) < of_int ?n" using n(1) by (simp only: of_int_0_less_iff)
      then show ?thesis by (simp add: field_simps)
    qed
    finally show ?thesis by simp
  qed
  show "\<exists>dates gaps avg_gap days_since_last status.
            mset dates = mset parsed
          \<and> sorted_wrt (\<lambda>a b. datetime_key b \<le> datetime_key a) dates
          \<and> days_since_last = toordinal now - toordinal (hd dates)
          \<and> gaps = map (\<lambda>i. toordinal (dates ! i) - toordinal (dates ! (i + 1)))
                      [0 ..< length dates - 1]
          \<and> true_div (sum_list gaps) (int (length gaps)) = Inr avg_gap
          \<and> status = (if float_mul avg_gap (3 / 2) < of_int days_since_last
                       then ''overdue'' else ''on_schedule'')
          \<and> (length recent_posts \<le> 2 ^ 28 \<longrightarrow>
                (status = ''overdue'')
                  = (3 / 2 * (rat_of_int (sum_list gaps) / rat_of_int (int (length gaps)))
                       < rat_of_int days_since_last))
          \<and> analyze_posting_rhythm now recent_posts =
              Inr (Rhythm
                \<lparr>days_since_last_post = days_since_last,
                 average_posting_frequency = ''Every '' @ format_1f avg_gap @ '' days'',
                 posting_status = status\<rparr>)"
  proof (intro exI [of _ ?dates] exI [of _ ?gaps] exI [of _ avg] exI [of _ ?days]
      exI [of _ ?status] conjI impI)
    show "mset ?dates = mset parsed" by (rule mset_sort_reverse)
    show "sorted_wrt (\<lambda>a b. datetime_key b \<le> datetime_key a) ?dates" by (rule sorted)
    show "true_div (sum_list ?gaps) (int (length ?gaps)) = Inr avg"
      using avg(2) unfolding gaps .
    show "analyze_posting_rhythm now recent_posts =
            Inr (Rhythm
              \<lparr>days_since_last_post = ?days,
               average_posting_frequency = ''Every '' @ format_1f avg @ '' days'',
               posting_status = ?status\<rparr>)"
      by (rule res)
    show "(?status = ''overdue'')
            = (3 / 2 * (rat_of_int (sum_list ?gaps) / rat_of_int (int (length ?gaps)))
                 < rat_of_int ?days)"
      if "length recent_posts \<le> 2 ^ 28"
      using that by (rule exact)
  qed (rule refl)+
qed

lemma example_rhythm_dates:
  "parse_dates [example_post ''1'' ''promotion'' 10 [] ''2024-01-10'',
                example_post ''2'' ''promotion'' 20 [] ''2024-01-05'']
   = Inr [\<lparr>year = 2024, month = 1, day = 10, hour = 0, minute = 0, second = 0, microsecond = 0\<rparr>,
          \<lparr>year = 2024, month = 1, day = 5, hour = 0, minute = 0, second = 0, microsecond = 0\<rparr>]"
  by code_simp

text \<open>The example of the spec: records dated 2024-01-10 and 2024-01-05, evaluated on
  2024-01-20 (here at 13:05), give 10 days since the last post, an average gap of 5 days
  and the status \<open>overdue\<close>.\<close>

lemma example_rhythm:
  "analyze_posting_rhythm
     \<lparr>year = 2024, month = 1, day = 20, hour = 13, minute = 5, second = 0, microsecond = 0\<rparr>
     [example_post ''1'' ''promotion'' 10 [] ''2024-01-10'',
      example_post ''2'' ''promotion'' 20 [] ''2024-01-05'']
   = Inr (Rhythm \<lparr>days_since_last_post = 10,
                   average_posting_frequency = ''Every 5.0 days'',
                   posting_status = ''overdue''\<rparr>)"
  by code_simp

theorem posting_rhythm_report_witness:
  "2 \<le> length [example_post ''1'' ''promotion'' 10 [] ''2024-01-10'',
                 example_post ''2'' ''promotion'' 20 [] ''2024-01-05'']
   \<and> valid_time \<lparr>year = 2024, month = 1, day = 20, hour = 13, minute = 5, second = 0,
                   microsecond = 0\<rparr>
   \<and> analyze_posting_rhythm
         \<lparr>year = 2024, month = 1, day = 20, hour = 13, minute = 5, second = 0, microsecond = 0\<rparr>
         [example_post ''1'' ''promotion'' 10 [] ''2024-01-10'',
          example_post ''2'' ''promotion'' 20 [] ''2024-01-05'']
       = Inr (Rhythm \<lparr>days_since_last_post = 10,
                       average_posting_frequency = ''Every 5.0 days'',
                       posting_status = ''overdue''\<rparr>)
   \<and> (\<exists>dates gaps avg_gap days_since_last status.
          mset dates =
            mset [\<lparr>year = 2024, month = 1, day = 10, hour = 0, minute = 0, second = 0,
                    microsecond = 0\<rparr>,
                  \<lparr>year = 2024, month = 1, day = 5, hour = 0, minute = 0, second = 0,
                    microsecond = 0\<rparr>]
        \<and> sorted_wrt (\<lambda>a b. datetime_key b \<le> datetime_key a) dates
        \<and> true_div (sum_list gaps) (int (length gaps)) = Inr avg_gap
        \<and> analyze_posting_rhythm
              \<lparr>year = 2024, month = 1, day = 20, hour = 13, minute = 5, second = 0,
                microsecond = 0\<rparr>
              [example_post ''1'' ''promotion'' 10 [] ''2024-01-10'',
               example_post ''2'' ''promotion'' 20 [] ''2024-01-05'']
            = Inr (Rhythm
                \<lparr>days_since_last_post = days_since_last,
                 average_posting_frequency = ''Every '' @ format_1f avg_gap @ '' days'',
                 posting_status = status\<rparr>))"
proof -
  have len: "2 \<le> length [example_post ''1'' ''promotion'' 10 [] ''2024-01-10'',
                          example_post ''2'' ''promotion'' 20 [] ''2024-01-05'']"
    by simp
  have now: "valid_time \<lparr>year = 2024, month = 1, day = 20, hour = 13, minute = 5, second = 0,
                          microsecond = 0\<rparr>"
    by (simp add: valid_time_def)
  show ?thesis
    using posting_rhythm_report
            [of "[example_post ''1'' ''promotion'' 10 [] ''2024-01-10'',
                  example_post ''2'' ''promotion'' 20 [] ''2024-01-05'']"
                "\<lparr>year = 2024, month = 1, day = 20, hour = 13, minute = 5, second = 0,
                  microsecond = 0\<rparr>"
                "[\<lparr>year = 2024, month = 1, day = 10, hour = 0, minute = 0, second = 0,
                   microsecond = 0\<rparr>,
                  \<lparr>year = 2024, month = 1, day = 5, hour = 0, minute = 0, second = 0,
                   microsecond = 0\<rparr>]"]
      len now example_rhythm_dates example_rhythm
    by blast
qed

section \<open>Recent posts in calendar order\<close>

subsection \<open>ISO date strings\<close>

lemma char_less_digit_value: "c < d \<longleftrightarrow> digit_value c < digit_value d"
  by (simp add: digit_value_def less_char_def)

lemma char_eq_digit_value: "c = d \<longleftrightarrow> digit_value c = digit_value d"
  by (auto simp: digit_value_def)

lemma iso_dateD:
  assumes "iso_date s"
  shows "\<exists>y1 y2 y3 y4 m1 m2 d1 d2.
    s = [y1, y2, y3, y4, CHR ''-'', m1, m2, CHR ''-'', d1, d2] \<and>
    is_digit y1 \<and> is_digit y2 \<and> is_digit y3 \<and> is_digit y4 \<and>
    is_digit m1 \<and> is_digit m2 \<and> is_digit d1 \<and> is_digit d2"
  using assms by (elim iso_date.elims) auto

lemma two_digits_less:
  fixes a1 a2 b1 b2 :: int
  assumes "0 \<le> a2" "a2 \<le> 9" "0 \<le> b2" "b2 \<le> 9"
  shows "10 * a1 + a2 < 10 * b1 + b2 \<longleftrightarrow> a1 < b1 \<or> a1 = b1 \<and> a2 < b2"
  using assms by arith

lemma two_digits_eq:
  fixes a1 a2 b1 b2 :: int
  assumes "0 \<le> a2" "a2 \<le> 9" "0 \<le> b2" "b2 \<le> 9"
  shows "10 * a1 + a2 = 10 * b1 + b2 \<longleftrightarrow> a1 = b1 \<and> a2 = b2"
  using assms by arith


lemma four_digits_less:
  fixes a1 a2 a3 a4 b1 b2 b3 b4 :: int
  assumes "0 \<le> a2" "a2 \<le> 9" "0 \<le> b2" "b2 \<le> 9" "0 \<le> a3" "a3 \<le> 9" "0 \<le> b3" "b3 \<le> 9"
    "0 \<le> a4" "a4 \<le> 9" "0 \<le> b4" "b4 \<le> 9"
  shows "1000 * a1 + 100 * a2 + 10 * a3 + a4 < 1000 * b1 + 100 * b2 + 10 * b3 + b4
         \<longleftrightarrow> a1 < b1 \<or> a1 = b1 \<and> (a2 < b2 \<or> a2 = b2 \<and> (a3 < b3 \<or> a3 = b3 \<and> a4 < b4))"
proof -
  have a: "1000 * a1 + 100 * a2 + 10 * a3 + a4 = 10 * (10 * (10 * a1 + a2) + a3) + a4" by simp
  have b: "1000 * b1 + 100 * b2 + 10 * b3 + b4 = 10 * (10 * (10 * b1 + b2) + b3) + b4" by simp
  show ?thesis
    unfolding a b
    by (simp only: two_digits_less [OF assms(9-12)] two_digits_eq [OF assms(5-8)]
        two_digits_less [OF assms(5-8)] two_digits_eq [OF assms(1-4)]
        two_digits_less [OF assms(1-4)]) blast
qed

lemma four_digits_eq:
  fixes a1 a2 a3 a4 b1 b2 b3 b4 :: int
  assumes "0 \<le> a2" "a2 \<le> 9" "0 \<le> b2" "b2 \<le> 9" "0 \<le> a3" "a3 \<le> 9" "0 \<le> b3" "b3 \<le> 9"
    "0 \<le> a4" "a4 \<le> 9" "0 \<le> b4" "b4 \<le> 9"
  shows "1000 * a1 + 100 * a2 + 10 * a3 + a4 = 1000 * b1 + 100 * b2 + 10 * b3 + b4
         \<longleftrightarrow> a1 = b1 \<and> a2 = b2 \<and> a3 = b3 \<and> a4 = b4"
proof -
  have a: "1000 * a1 + 100 * a2 + 10 * a3 + a4 = 10 * (10 * (10 * a1 + a2) + a3) + a4" by simp
  have b: "1000 * b1 + 100 * b2 + 10 * b3 + b4 = 10 * (10 * (10 * b1 + b2) + b3) + b4" by simp
  show ?thesis
    unfolding a b
    by (simp only: two_digits_eq [OF assms(9-12)] two_digits_eq [OF assms(5-8)]
        two_digits_eq [OF assms(1-4)]) blast
qed

lemma iso_date_order:
  assumes "iso_date s" "iso_date t"
  shows "s \<le> t \<longleftrightarrow> calendar_date s \<le> calendar_date t"
proof -
  from iso_dateD [OF assms(1)] obtain y1 y2 y3 y4 m1 m2 d1 d2 where
    s: "s = [y1, y2, y3, y4, CHR ''-'', m1, m2, CHR ''-'', d1, d2]"
    and sd: "is_digit y1" "is_digit y2" "is_digit y3" "is_digit y4"
      "is_digit m1" "is_digit m2" "is_digit d1" "is_digit d2"
    by blast
  from iso_dateD [OF assms(2)] obtain z1 z2 z3 z4 n1 n2 e1 e2 where
    t: "t = [z1, z2, z3, z4, CHR ''-'', n1, n2, CHR ''-'', e1, e2]"
    and td: "is_digit z1" "is_digit z2" "is_digit z3" "is_digit z4"
      "is_digit n1" "is_digit n2" "is_digit e1" "is_digit e2"
    by blast
  note r = sd [THEN digit_value_range] td [THEN digit_value_range]
  have str: "s \<le> t \<longleftrightarrow>
      (y1 < z1 \<or> y1 = z1 \<and> (y2 < z2 \<or> y2 = z2 \<and> (y3 < z3 \<or> y3 = z3 \<and> (y4 < z4 \<or> y4 = z4 \<and>
       (m1 < n1 \<or> m1 = n1 \<and> (m2 < n2 \<or> m2 = n2 \<and> (d1 < e1 \<or> d1 = e1 \<and> (d2 < e2 \<or> d2 = e2))))))))"
    unfolding s t by simp
  have year_less: "fst (calendar_date s) < fst (calendar_date t) \<longleftrightarrow>
      (y1 < z1 \<or> y1 = z1 \<and> (y2 < z2 \<or> y2 = z2 \<and> (y3 < z3 \<or> y3 = z3 \<and> y4 < z4)))"
    unfolding s t using r
    by (simp only: calendar_date.simps fst_conv char_less_digit_value char_eq_digit_value
        four_digits_less)
  have year_eq: "fst (calendar_date s) = fst (calendar_date t) \<longleftrightarrow>
      y1 = z1 \<and> y2 = z2 \<and> y3 = z3 \<and> y4 = z4"
    unfolding s t using r
    by (simp only: calendar_date.simps fst_conv char_eq_digit_value four_digits_eq)
  have month_less: "fst (snd (calendar_date s)) < fst (snd (calendar_date t)) \<longleftrightarrow>
      (m1 < n1 \<or> m1 = n1 \<and> m2 < n2)"
    unfolding s t using r
    by (simp only: calendar_date.simps fst_conv snd_conv char_less_digit_value
        char_eq_digit_value two_digits_less)
  have month_eq: "fst (snd (calendar_date s)) = fst (snd (calendar_date t)) \<longleftrightarrow>
      m1 = n1 \<and> m2 = n2"
    unfolding s t using r
    by (simp only: calendar_date.simps fst_conv snd_conv char_eq_digit_value two_digits_eq)
  have day_less: "snd (snd (calendar_date s)) < snd (snd (calendar_date t)) \<longleftrightarrow>
      (d1 < e1 \<or> d1 = e1 \<and> d2 < e2)"
    unfolding s t using r
    by (simp only: calendar_date.simps fst_conv snd_conv char_less_digit_value
        char_eq_digit_value two_digits_less)
  have day_eq: "snd (snd (calendar_date s)) = snd (snd (calendar_date t)) \<longleftrightarrow>
      d1 = e1 \<and> d2 = e2"
    unfolding s t using r
    by (simp only: calendar_date.simps fst_conv snd_conv char_eq_digit_value two_digits_eq)
  have cal: "calendar_date s \<le> calendar_date t \<longleftrightarrow>
      fst (calendar_date s) < fst (calendar_date t)
      \<or> fst (calendar_date s) = fst (calendar_date t)
        \<and> (fst (snd (calendar_date s)) < fst (snd (calendar_date t))
           \<or> fst (snd (calendar_date s)) = fst (snd (calendar_date t))
             \<and> (snd (snd (calendar_date s)) < snd (snd (calendar_date t))
                \<or> snd (snd (calendar_date s)) = snd (snd (calendar_date t))))"
    by (auto simp: less_eq_prod_def)
  show ?thesis
    unfolding cal str year_less year_eq month_less month_eq day_less day_eq by blast
qed

lemma iso_date_calendar_date_eq:
  assumes "iso_date s" "iso_date t"
  shows "calendar_date s = calendar_date t \<longleftrightarrow> s = t"
  using iso_date_order [OF assms] iso_date_order [OF assms(2) assms(1)] by auto

text \<open>The date that \<open>strptime\<close> reads from an ISO date string is the one the string
  denotes.\<close>

lemma digit_not_hyphen: "is_digit c \<Longrightarrow> c \<noteq> CHR ''-''"
  by (auto simp: is_digit_def less_eq_char_def)

lemma digit_not_space: "is_digit c \<Longrightarrow> c \<noteq> CHR '' ''"
  by (auto simp: is_digit_def less_eq_char_def)

lemma strptime_calendar_date:
  assumes "iso_date s" and "strptime s = Inr d"
  shows "(year d, month d, day d) = calendar_date s \<and> midnight d"
proof -
  from iso_dateD [OF assms(1)] obtain y1 y2 y3 y4 m1 m2 d1 d2 where
    s: "s = [y1, y2, y3, y4, CHR ''-'', m1, m2, CHR ''-'', d1, d2]"
    and sd: "is_digit y1" "is_digit y2" "is_digit y3" "is_digit y4"
      "is_digit m1" "is_digit m2" "is_digit d1" "is_digit d2"
    by blast
  have mm: "match_month [m1, m2, CHR ''-'', d1, d2] = Some (m, r)
            \<Longrightarrow> m = 10 * digit_value m1 + digit_value m2 \<and> r = [d1, d2]" for m r
    using digit_not_hyphen [OF sd(6)] by (auto split: if_splits)
  have md: "match_day [d1, d2] = Some (dd, []) \<Longrightarrow> dd = 10 * digit_value d1 + digit_value d2"
    for dd
    using digit_not_space [OF sd(7)] by (auto split: if_splits)
  define y where "y = 1000 * digit_value y1 + 100 * digit_value y2 + 10 * digit_value y3
                        + digit_value y4"
  show ?thesis
  proof (cases "match_month [m1, m2, CHR ''-'', d1, d2]")
    case None
    with assms(2) sd show ?thesis by (simp add: s strptime_def)
  next
    case (Some mr)
    obtain m r where mr: "mr = (m, r)" by (cases mr)
    from mm Some mr have m: "m = 10 * digit_value m1 + digit_value m2" and r: "r = [d1, d2]"
      by auto
    show ?thesis
    proof (cases "match_day [d1, d2]")
      case None
      with assms(2) sd Some mr r show ?thesis by (simp add: s strptime_def)
    next
      case day: (Some dr)
      obtain dd r2 where dr: "dr = (dd, r2)" by (cases dr)
      from assms(2) sd Some mr r day dr have r2: "r2 = []"
        by (simp add: s strptime_def Let_def split: if_splits)
      with md day dr have dd: "dd = 10 * digit_value d1 + digit_value d2" by auto
      from assms(2) sd Some mr r day dr r2
      have "d = \<lparr>year = y, month = m, day = dd, hour = 0, minute = 0, second = 0,
                   microsecond = 0\<rparr>"
        by (simp add: s strptime_def Let_def y_def split: if_splits)
      then show ?thesis by (simp add: s m dd y_def midnight_def)
    qed
  qed
qed

subsection \<open>Sorting by keys that order the elements alike\<close>

lemma insort_reverse_cong:
  assumes "\<And>y. y \<in> set xs \<Longrightarrow> (f y \<le> f x) = (g y \<le> g x)"
  shows "insort_reverse f x xs = insort_reverse g x xs"
  using assms by (induction xs) auto

lemma sort_reverse_cong:
  assumes "\<And>x y. x \<in> set xs \<Longrightarrow> y \<in> set xs \<Longrightarrow> (f x \<le> f y) = (g x \<le> g y)"
  shows "sort_reverse f xs = sort_reverse g xs"
  using assms
proof (induction xs)
  case Nil
  show ?case by (simp add: sort_reverse_def)
next
  case (Cons x xs)
  have ih: "sort_reverse f xs = sort_reverse g xs"
    using Cons.prems by (intro Cons.IH) auto
  have "insort_reverse f x (sort_reverse g xs) = insort_reverse g x (sort_reverse g xs)"
    using Cons.prems by (intro insort_reverse_cong) (auto simp: set_sort_reverse)
  with ih show ?case by (simp add: sort_reverse_def)
qed

lemma sort_reverse_calendar_date:
  assumes "\<forall>p\<in>set posts. iso_date (date_posted p)"
  shows "sort_reverse date_posted posts = sort_reverse (\<lambda>p. calendar_date (date_posted p)) posts"
  using assms by (intro sort_reverse_cong) (auto simp: iso_date_order)

subsection \<open>get_recent_posts\<close>

text \<open>
  Claim C6, for the stores of the data model and the limits that count. For every
  store whose rows are readable and carry ISO date strings, and every limit \<open>n \<ge> 0\<close>,
  \<open>get_recent_posts\<close> returns the first \<open>n\<close> elements of a list that is a rearrangement
  of all posts, sorted by the calendar date descending (the most recent first), in
  which posts of the same date keep the order in which the index returns them, which
  is the order of insertion; so it returns at most \<open>n\<close> posts.
\<close>

theorem get_recent_posts_sorted_truncated:
  assumes "0 \<le> limit"
    and "get_all_posts loads coll = Inr posts"
    and "\<forall>p\<in>set posts. iso_date (date_posted p)"
  shows "\<exists>sorted_posts.
           get_recent_posts loads coll limit = Inr (take (nat limit) sorted_posts)
           \<and> mset sorted_posts = mset posts
           \<and> sorted_wrt (\<lambda>a b. calendar_date (date_posted b) \<le> calendar_date (date_posted a))
                sorted_posts
           \<and> (\<forall>d. filter (\<lambda>p. calendar_date (date_posted p) = d) sorted_posts
                    = filter (\<lambda>p. calendar_date (date_posted p) = d) posts)
           \<and> int (length (take (nat limit) sorted_posts)) \<le> limit"
proof -
  let ?key = "\<lambda>p. calendar_date (date_posted p)"
  have "get_recent_posts loads coll limit = Inr (take (nat limit) (sort_reverse ?key posts))"
    using assms by (simp add: get_recent_posts_def slice_to_def sort_reverse_calendar_date)
  moreover have "int (length (take (nat limit) (sort_reverse ?key posts))) \<le> limit"
    using assms(1) by simp
  ultimately show ?thesis
    using mset_sort_reverse [of ?key posts] sorted_sort_reverse [of ?key posts]
      filter_sort_reverse [of ?key _ posts]
    by blast
qed

theorem get_recent_posts_sorted_truncated_witness:
  "(0::int) \<le> 2
   \<and> iso_date (date_posted (example_post ''1'' ''promotion'' 10 [''#a''] ''2024-01-01''))
   \<and> iso_date (date_posted (example_post ''2'' ''promotion'' 20 [''#a''] ''2024-01-05''))
   \<and> iso_date (date_posted (example_post ''3'' ''promotion'' 30 [''#a''] ''2024-01-03''))
   \<and> (\<exists>sorted_posts.
        get_recent_posts example_loads
          [example_row ''1'' ''promotion'' 10 ''#a'' ''2024-01-01'',
           example_row ''2'' ''promotion'' 20 ''#a'' ''2024-01-05'',
           example_row ''3'' ''promotion'' 30 ''#a'' ''2024-01-03''] 2
          = Inr (take (nat 2) sorted_posts)
        \<and> mset sorted_posts =
            mset [example_post ''1'' ''promotion'' 10 [''#a''] ''2024-01-01'',
                  example_post ''2'' ''promotion'' 20 [''#a''] ''2024-01-05'',
                  example_post ''3'' ''promotion'' 30 [''#a''] ''2024-01-03'']
        \<and> sorted_wrt (\<lambda>a b. calendar_date (date_posted b) \<le> calendar_date (date_posted a))
             sorted_posts)"
proof -
  have h: "(0::int) \<le> 2" by simp
  have iso: "\<forall>p\<in>set [example_post ''1'' ''promotion'' 10 [''#a''] ''2024-01-01'',
                       example_post ''2'' ''promotion'' 20 [''#a''] ''2024-01-05'',
                       example_post ''3'' ''promotion'' 30 [''#a''] ''2024-01-03''].
               iso_date (date_posted p)"
    by (simp add: example_post_def is_digit_def)
  from iso
  have "iso_date (date_posted (example_post ''1'' ''promotion'' 10 [''#a''] ''2024-01-01''))"
    and "iso_date (date_posted (example_post ''2'' ''promotion'' 20 [''#a''] ''2024-01-05''))"
    and "iso_date (date_posted (example_post ''3'' ''promotion'' 30 [''#a''] ''2024-01-03''))"
    by simp_all
  then show ?thesis
    using h get_recent_posts_sorted_truncated [OF h example_recent_all iso] by blast
qed

text \<open>
  Claim C6 as the spec states it, for every store and every limit, fails in two ways.
  On a negative limit the slice \<open>posts[:-1]\<close> drops the last post only, so \<open>recent(-1)\<close>
  on three records returns two, which is more than the limit. And the sort compares
  the stored strings: of two posts dated \<open>2024-01-15\<close> and \<open>2024-1-9\<close>, both of which
  \<open>strptime\<close> reads, the one of 9 January comes first although it is the older one.
\<close>

lemma example_unpadded_all:
  "get_all_posts example_loads
     [example_row ''1'' ''promotion'' 10 ''#a'' ''2024-01-15'',
      example_row ''2'' ''promotion'' 20 ''#a'' ''2024-1-9'']
   = Inr [example_post ''1'' ''promotion'' 10 [''#a''] ''2024-01-15'',
          example_post ''2'' ''promotion'' 20 [''#a''] ''2024-1-9'']"
  by (simp add: get_all_posts_def collection_get_def example_loads_def example_row_def
      example_post_def)

lemma strptime_unpadded:
  "strptime ''2024-1-9'' = Inr \<lparr>year = 2024, month = 1, day = 9, hour = 0, minute = 0,
                                second = 0, microsecond = 0\<rparr>"
  by (simp add: strptime_def is_digit_def is_digit19_def digit_value_def days_in_month_def
      is_leap_def Let_def)

lemma strptime_padded:
  "strptime ''2024-01-15'' = Inr \<lparr>year = 2024, month = 1, day = 15, hour = 0, minute = 0,
                                  second = 0, microsecond = 0\<rparr>"
  by (simp add: strptime_def is_digit_def is_digit19_def digit_value_def days_in_month_def
      is_leap_def Let_def)

theorem get_recent_posts_limit_counterexample:
  "(get_recent_posts example_loads
      [example_row ''1'' ''promotion'' 10 ''#a'' ''2024-01-01'',
       example_row ''2'' ''promotion'' 20 ''#a'' ''2024-01-05'',
       example_row ''3'' ''promotion'' 30 ''#a'' ''2024-01-03''] (- 1)
    = Inr [example_post ''2'' ''promotion'' 20 [''#a''] ''2024-01-05'',
           example_post ''3'' ''promotion'' 30 [''#a''] ''2024-01-03'']
    \<and> \<not> int (length [example_post ''2'' ''promotion'' 20 [''#a''] ''2024-01-05'',
                        example_post ''3'' ''promotion'' 30 [''#a''] ''2024-01-03'']) \<le> - 1)
   \<and> (get_recent_posts example_loads
        [example_row ''1'' ''promotion'' 10 ''#a'' ''2024-01-15'',
         example_row ''2'' ''promotion'' 20 ''#a'' ''2024-1-9''] 2
      = Inr [example_post ''2'' ''promotion'' 20 [''#a''] ''2024-1-9'',
             example_post ''1'' ''promotion'' 10 [''#a''] ''2024-01-15'']
      \<and> strptime ''2024-1-9''
          = Inr \<lparr>year = 2024, month = 1, day = 9, hour = 0, minute = 0, second = 0,
                  microsecond = 0\<rparr>
      \<and> strptime ''2024-01-15''
          = Inr \<lparr>year = 2024, month = 1, day = 15, hour = 0, minute = 0, second = 0,
                  microsecond = 0\<rparr>
      \<and> datetime_key \<lparr>year = 2024, month = 1, day = 9, hour = 0, minute = 0, second = 0,
                       microsecond = 0\<rparr>
          < datetime_key \<lparr>year = 2024, month = 1, day = 15, hour = 0, minute = 0, second = 0,
                          microsecond = 0\<rparr>)"
  by (simp add: get_recent_posts_def example_recent_all example_unpadded_all sort_reverse_def
      slice_to_def example_post_def strptime_unpadded strptime_padded datetime_key_def)

end
